theory Spec2Isabelle
  imports Complex_Main
begin

section \<open>Outlier filter: \<open>replace_outliers\<close>\<close>

text \<open>
  Series values are modelled as reals (numpy float64 idealised: no rounding, no NaN in
  the input). A value pandas leaves undefined (NaN) in a derived series is \<open>None\<close>.
\<close>

definition EPSILON :: real where
  "EPSILON = 1 / 10 ^ 8"

definition LOCAL_LOOKBACK_WINDOW :: nat where
  "LOCAL_LOOKBACK_WINDOW = 14"

definition Z_THRESHOLD :: real where
  "Z_THRESHOLD = 10"

definition MIN_MEAN_TO_CONSIDER :: real where
  "MIN_MEAN_TO_CONSIDER = 5"

text \<open>
  The exceptions of the modelled code: a \<open>KeyError\<close> carries the key that was not found,
  a column name of a table or an integer label of a series.
\<close>

datatype py_key = Name string | Label int

datatype py_error = KeyError py_key | IndexError

definition mean :: "real list \<Rightarrow> real" where
  "mean w = sum_list w / real (length w)"

text \<open>\<open>std(ddof=0)\<close>: the population standard deviation of a window.\<close>

definition std0 :: "real list \<Rightarrow> real" where
  "std0 w = sqrt (mean (map (\<lambda>v. (v - mean w) ^ 2) w))"

text \<open>
  \<open>x.rolling(window=W, min_periods=W, center=False)\<close> followed by an aggregation \<open>f\<close>:
  position \<open>j\<close> aggregates \<open>x[j-W+1 .. j]\<close> and is undefined until the window is full.
\<close>

definition rolling :: "nat \<Rightarrow> (real list \<Rightarrow> real) \<Rightarrow> real list \<Rightarrow> real option list" where
  "rolling W f x =
     map (\<lambda>j. if W \<le> j + 1 then Some (f (take W (drop (j + 1 - W) x))) else None)
       [0..<length x]"

text \<open>\<open>.shift(1)\<close>: every value moves one position later, the first becomes undefined.\<close>

definition shift1 :: "real option list \<Rightarrow> real option list" where
  "shift1 ys = take (length ys) (None # ys)"

text \<open>\<open>z_score = (x - m) / (s + EPSILON)\<close>, elementwise, undefined where \<open>m\<close> or \<open>s\<close> is.\<close>

definition z_score :: "real list \<Rightarrow> real option list \<Rightarrow> real option list \<Rightarrow> real option list" where
  "z_score x m s =
     map (\<lambda>i. case (m ! i, s ! i) of
                 (Some mv, Some sv) \<Rightarrow> Some ((x ! i - mv) / (sv + EPSILON))
               | _ \<Rightarrow> None)
       [0..<length x]"

text \<open>\<open>np.where(z_score > z_threshold)[0]\<close>: a comparison with an undefined value is false.\<close>

definition possible_changes_idx :: "real option list \<Rightarrow> real \<Rightarrow> nat list" where
  "possible_changes_idx z z_threshold =
     filter (\<lambda>i. case z ! i of Some v \<Rightarrow> v > z_threshold | None \<Rightarrow> False) [0..<length z]"

text \<open>
  \<open>x[k]\<close> for an integer \<open>k\<close>. The series \<open>x\<close> is built by \<open>pd.Series(timeseries)\<close> and so
  carries the default integer index \<open>0 .. len(x) - 1\<close>; on such a series \<open>x[k]\<close> looks up
  the label \<open>k\<close>, and a label the index does not hold raises \<open>KeyError\<close> (positional
  access, which raises \<open>IndexError\<close>, is \<open>x.iloc[k]\<close>).
\<close>

definition series_get :: "real list \<Rightarrow> int \<Rightarrow> py_error + real" where
  "series_get x k =
     (if 0 \<le> k \<and> k < int (length x) then Inr (x ! nat k) else Inl (KeyError (Label k)))"

text \<open>
  The \<open>try\<close> statement inside the loop. The body is
  \<open>x[idx] = np.mean([x[idx - 1], x[idx + 1]])\<close>; the clause \<open>except IndexError\<close> runs
  \<open>x[idx] = x[idx - 1]\<close>, and any other exception leaves the function.
\<close>

definition except_IndexError :: "real list \<Rightarrow> nat \<Rightarrow> py_error \<Rightarrow> py_error + real list" where
  "except_IndexError x idx e =
     (if e = IndexError
      then (case series_get x (int idx - 1) of
              Inl e' \<Rightarrow> Inl e'
            | Inr left \<Rightarrow> Inr (x[idx := left]))
      else Inl e)"

definition replace_at :: "real list \<Rightarrow> nat \<Rightarrow> py_error + real list" where
  "replace_at x idx =
     (case series_get x (int idx - 1) of
        Inl e \<Rightarrow> except_IndexError x idx e
      | Inr left \<Rightarrow>
          (case series_get x (int idx + 1) of
             Inl e \<Rightarrow> except_IndexError x idx e
           | Inr right \<Rightarrow> Inr (x[idx := (left + right) / 2])))"

definition mean_exceeds :: "real option list \<Rightarrow> real \<Rightarrow> nat \<Rightarrow> bool" where
  "mean_exceeds m min_mean_to_consider idx =
     (case m ! idx of Some mv \<Rightarrow> mv > min_mean_to_consider | None \<Rightarrow> False)"

text \<open>
  The loop over \<open>possible_changes_idx\<close>. Its state is the series \<open>x\<close>, overwritten in
  place, and \<open>changed_idx\<close>; \<open>changed_value\<close> and \<open>changed_snippets\<close> only feed the log
  record and are left out. The result is the state the loop ended in and the exception
  that ended it, if one did: what was written to \<open>x\<close> before an exception stays written.
\<close>

fun outlier_loop ::
  "real option list \<Rightarrow> real \<Rightarrow> nat list \<Rightarrow> real list \<times> nat list
     \<Rightarrow> (real list \<times> nat list) \<times> py_error option" where
  "outlier_loop m mm [] st = (st, None)"
| "outlier_loop m mm (idx # rest) (x, changed_idx) =
     (if mean_exceeds m mm idx
      then (case replace_at x idx of
              Inl e \<Rightarrow> ((x, changed_idx @ [idx]), Some e)
            | Inr x' \<Rightarrow> outlier_loop m mm rest (x', changed_idx @ [idx]))
      else outlier_loop m mm rest (x, changed_idx))"

definition replace_outliers_run ::
  "nat \<Rightarrow> real \<Rightarrow> real \<Rightarrow> real list \<Rightarrow> (real list \<times> nat list) \<times> py_error option" where
  "replace_outliers_run local_lookback_window z_threshold min_mean_to_consider x =
     (let m = shift1 (rolling local_lookback_window mean x);
          s = shift1 (rolling local_lookback_window std0 x);
          z = z_score x m s
      in outlier_loop m min_mean_to_consider (possible_changes_idx z z_threshold) (x, []))"

text \<open>
  The outcome of a call: the returned series, or the exception raised. Besides, the
  values the series object holds when the call ends either way, and the indices the run
  set out to replace.
\<close>

definition replace_outliers :: "nat \<Rightarrow> real \<Rightarrow> real \<Rightarrow> real list \<Rightarrow> py_error + real list" where
  "replace_outliers W z_threshold min_mean_to_consider x =
     (case replace_outliers_run W z_threshold min_mean_to_consider x of
        ((y, changed_idx), None) \<Rightarrow> Inr y
      | (st, Some e) \<Rightarrow> Inl e)"

definition series_after :: "nat \<Rightarrow> real \<Rightarrow> real \<Rightarrow> real list \<Rightarrow> real list" where
  "series_after W z_threshold min_mean_to_consider x =
     fst (fst (replace_outliers_run W z_threshold min_mean_to_consider x))"

definition changed_idx_of :: "nat \<Rightarrow> real \<Rightarrow> real \<Rightarrow> real list \<Rightarrow> nat list" where
  "changed_idx_of W z_threshold min_mean_to_consider x =
     snd (fst (replace_outliers_run W z_threshold min_mean_to_consider x))"

text \<open>
  The replacement condition in the words of the specification: the trailing window of
  \<open>W\<close> points before \<open>i\<close> is full, the z-score of \<open>x[i]\<close> against that window exceeds the
  threshold, and the window's mean strictly exceeds the guard.
\<close>

definition outlier_at :: "nat \<Rightarrow> real \<Rightarrow> real \<Rightarrow> real list \<Rightarrow> nat \<Rightarrow> bool" where
  "outlier_at W z_threshold min_mean x i =
     (W \<le> i \<and> i < length x \<and>
      (x ! i - mean (take W (drop (i - W) x))) / (std0 (take W (drop (i - W) x)) + EPSILON)
         > z_threshold \<and>
      mean (take W (drop (i - W) x)) > min_mean)"

text \<open>The call with the default arguments taken from \<open>InferRtConstants\<close>.\<close>

definition replace_outliers_default :: "real list \<Rightarrow> py_error + real list" where
  "replace_outliers_default x =
     replace_outliers LOCAL_LOOKBACK_WINDOW Z_THRESHOLD MIN_MEAN_TO_CONSIDER x"

text \<open>Running the filter on its own output: the second call happens if the first returns.\<close>

definition replace_outliers_twice :: "real list \<Rightarrow> py_error + real list" where
  "replace_outliers_twice x =
     (case replace_outliers_default x of
        Inl e \<Rightarrow> Inl e
      | Inr y \<Rightarrow> replace_outliers_default y)"

text \<open>
  Arrays and Series are objects that refer to a data buffer, and a store maps buffer
  addresses to the values held there. \<open>pd.Series(a)\<close> on a float array builds a new
  Series on the array's own buffer (the constructor does not copy), so the array and the
  Series are two references to the same values.
\<close>

datatype ref = Ndarray nat | Series nat

definition buffer :: "ref \<Rightarrow> nat" where
  "buffer r = (case r of Ndarray b \<Rightarrow> b | Series b \<Rightarrow> b)"

definition pd_Series :: "ref \<Rightarrow> ref" where
  "pd_Series a = Series (buffer a)"

type_synonym store = "nat \<rightharpoonup> real list"

text \<open>
  A call of \<open>replace_outliers\<close> on a reference: every \<open>x[idx] = ...\<close> writes into the
  buffer of \<open>x\<close> and \<open>return x\<close> hands the same reference back. The outcome is the
  returned reference or the exception, and the store the call leaves; a call on a
  dangling reference has no result.
\<close>

definition replace_outliers_call ::
  "nat \<Rightarrow> real \<Rightarrow> real \<Rightarrow> ref \<Rightarrow> store \<Rightarrow> ((py_error + ref) \<times> store) option" where
  "replace_outliers_call W z_threshold min_mean_to_consider x st =
     (case st (buffer x) of
        None \<Rightarrow> None
      | Some v \<Rightarrow>
          (case replace_outliers_run W z_threshold min_mean_to_consider v of
             ((y, changed_idx), None) \<Rightarrow> Some (Inr x, st(buffer x \<mapsto> y))
           | ((y, changed_idx), Some e) \<Rightarrow> Some (Inl e, st(buffer x \<mapsto> y))))"

text \<open>
  The outlier step of \<open>apply_gaussian_smoothing\<close>:
  \<open>timeseries_og = timeseries\<close>, then
  \<open>timeseries = replace_outliers(x=pd.Series(timeseries), log=self.log)\<close>. Here
  \<open>timeseries\<close> is the array \<open>get_timeseries\<close> returned, which is the engine's own
  attribute (\<open>self.observed_new_cases\<close> or \<open>self.observed_new_deaths\<close>). The result is
  the reference \<open>timeseries_og\<close> keeps, the outcome of the call, and the store.
\<close>

definition remove_outliers_step ::
  "ref \<Rightarrow> store \<Rightarrow> (ref \<times> (py_error + ref) \<times> store) option" where
  "remove_outliers_step timeseries st =
     (let timeseries_og = timeseries
      in case replace_outliers_call LOCAL_LOOKBACK_WINDOW Z_THRESHOLD MIN_MEAN_TO_CONSIDER
                (pd_Series timeseries) st of
           None \<Rightarrow> None
         | Some (outcome, st') \<Rightarrow> Some (timeseries_og, outcome, st'))"

text \<open>
  Series used as concrete inputs: a spike inside a flat baseline, that series after one
  pass of the filter, the flat baseline alone, and a spike on the last day.
\<close>

definition spike_series :: "real list" where
  "spike_series = [10, 10, 10, 10, 10, 10, 10, 10, 10, 10, 10, 10, 10, 10, 1000, 10, 20, 10]"

definition spike_filtered :: "real list" where
  "spike_filtered = [10, 10, 10, 10, 10, 10, 10, 10, 10, 10, 10, 10, 10, 10, 10, 10, 20, 10]"

definition flat_series :: "real list" where
  "flat_series = [10, 10, 10, 10, 10, 10, 10, 10, 10, 10, 10, 10, 10, 10, 10, 10, 10, 10]"

definition last_day_spike :: "real list" where
  "last_day_spike = [10, 10, 10, 10, 10, 10, 10, 10, 10, 10, 10, 10, 10, 10, 1000]"


section \<open>The engine and its time series\<close>

text \<open>
  Modelled from the spec: the enumeration \<open>TimeseriesType\<close> of \<open>pyseir.utils\<close> is not
  among the sources; these are the observation kinds (cases, deaths, hospitalizations)
  under the member names \<open>infer_rt.py\<close> uses. Its members are plain enumeration members,
  which Python treats as true in a condition.
\<close>

datatype TimeseriesType =
  RAW_NEW_CASES | RAW_NEW_DEATHS | NEW_CASES | NEW_DEATHS
  | NEW_HOSPITALIZATIONS | CURRENT_HOSPITALIZATIONS

definition truthy :: "TimeseriesType \<Rightarrow> bool" where
  "truthy t = True"

text \<open>
  Modelled from the spec: \<open>load_data.HospitalizationDataType\<close> is not among the sources;
  the type tag of the hospitalization series is cumulative or current occupancy.
\<close>

datatype HospitalizationDataType =
  HDT_CUMULATIVE_HOSPITALIZATIONS | HDT_CURRENT_HOSPITALIZATIONS

text \<open>
  The fields of \<open>RtInferenceEngine\<close> the modelled methods read. Dates and times are day
  numbers; \<open>case_times\<close> is the attribute \<open>self.times\<close>.
\<close>

record engine =
  r_list :: "real list"
  process_sigma :: real
  serial_period :: real
  min_cases :: real
  min_deaths :: real
  case_dates :: "int list"
  case_times :: "int list"
  observed_new_cases :: "real list"
  observed_new_deaths :: "real list"
  raw_new_case_dates :: "int list"
  times_raw_new_cases :: "int list"
  raw_new_cases :: "real list"
  hospital_dates :: "int list"
  hospital_times :: "int list"
  hospitalizations :: "real list"
  hospitalization_data_type :: "HospitalizationDataType option"

text \<open>
  \<open>get_timeseries\<close>. The third test is \<open>timeseries_type is NEW_DEATHS or RAW_NEW_DEATHS\<close>:
  the right operand of \<open>or\<close> is the enumeration member itself, tested for truth. A call
  that falls through every branch returns Python's \<open>None\<close>.
\<close>

definition get_timeseries ::
  "engine \<Rightarrow> TimeseriesType \<Rightarrow> (int list \<times> int list \<times> real list) option" where
  "get_timeseries self timeseries_type =
     (if timeseries_type = NEW_CASES
      then Some (case_dates self, case_times self, observed_new_cases self)
      else if timeseries_type = RAW_NEW_CASES
      then Some (raw_new_case_dates self, times_raw_new_cases self, raw_new_cases self)
      else if timeseries_type = NEW_DEATHS \<or> truthy RAW_NEW_DEATHS
      then Some (case_dates self, case_times self, observed_new_deaths self)
      else if timeseries_type \<in> {NEW_HOSPITALIZATIONS, CURRENT_HOSPITALIZATIONS}
      then Some (hospital_dates self, hospital_times self, hospitalizations self)
      else None)"

text \<open>
  The head of \<open>apply_gaussian_smoothing\<close>: the series handed to the outlier filter and
  the smoother. For the hospitalization kinds it is \<open>dates[2:], times[:2], timeseries[2:]\<close>.
\<close>

definition smoothing_input ::
  "engine \<Rightarrow> TimeseriesType \<Rightarrow> (int list \<times> int list \<times> real list) option" where
  "smoothing_input self timeseries_type =
     (case get_timeseries self timeseries_type of
        None \<Rightarrow> None
      | Some (dates, times', timeseries) \<Rightarrow>
          if timeseries_type \<in> {CURRENT_HOSPITALIZATIONS, NEW_HOSPITALIZATIONS}
          then Some (drop 2 dates, take 2 times', drop 2 timeseries)
          else Some (dates, times', timeseries))"

text \<open>
  \<open>get_available_timeseries\<close> (the plotting aside). \<open>hosps\<close> is bound only when a
  hospitalization type tag is present, and read only then. The hospitalization test is
  \<open>len(hosps > 3)\<close>: the length of the elementwise comparison, tested for truth.
\<close>

definition get_available_timeseries :: "engine \<Rightarrow> TimeseriesType list option" where
  "get_available_timeseries self =
     (case (get_timeseries self NEW_CASES, get_timeseries self NEW_DEATHS,
            if hospitalization_data_type self \<noteq> None
            then get_timeseries self NEW_HOSPITALIZATIONS else Some ([], [], []))
      of (Some (_, _, cases), Some (_, _, deaths), Some (_, _, hosps)) \<Rightarrow>
           Some
            ((if sum_list cases > min_cases self then [NEW_CASES, RAW_NEW_CASES] else []) @
             (if sum_list deaths > min_deaths self then [NEW_DEATHS, RAW_NEW_DEATHS] else []) @
             (if hospitalization_data_type self = Some HDT_CURRENT_HOSPITALIZATIONS
                 \<and> length (map (\<lambda>h. h > 3) hosps) \<noteq> 0
              then [NEW_HOSPITALIZATIONS]
              else if hospitalization_data_type self = Some HDT_CUMULATIVE_HOSPITALIZATIONS
                 \<and> length (map (\<lambda>h. h > 3) hosps) \<noteq> 0
              then [NEW_HOSPITALIZATIONS]
              else []))
       | _ \<Rightarrow> None)"

text \<open>An empty engine, the base of the concrete engines used below.\<close>

definition engine0 :: engine where
  "engine0 =
     \<lparr> r_list = [0, 1, 2], process_sigma = 1 / 20, serial_period = 6,
       min_cases = 5, min_deaths = 5,
       case_dates = [], case_times = [], observed_new_cases = [], observed_new_deaths = [],
       raw_new_case_dates = [], times_raw_new_cases = [], raw_new_cases = [],
       hospital_dates = [], hospital_times = [], hospitalizations = [],
       hospitalization_data_type = None \<rparr>"

text \<open>
  An engine with a single cumulative hospitalization reading, one death and three days of
  cases.
\<close>

definition engine_one_hosp :: engine where
  "engine_one_hosp =
     engine0 \<lparr> case_dates := [0, 1, 2], case_times := [0, 1, 2],
               observed_new_cases := [1, 1, 1], observed_new_deaths := [0, 1, 0],
               hospital_dates := [2], hospital_times := [2], hospitalizations := [7],
               hospitalization_data_type := Some HDT_CUMULATIVE_HOSPITALIZATIONS \<rparr>"


section \<open>Slices and the lag window of \<open>infer_all\<close>\<close>

text \<open>Python's \<open>xs[k:]\<close>: a negative start counts from the end and is clipped at the front.\<close>

definition py_slice_from :: "int \<Rightarrow> 'a list \<Rightarrow> 'a list" where
  "py_slice_from k xs =
     (if 0 \<le> k then drop (nat k) xs else drop (nat (int (length xs) + k)) xs)"

text \<open>
  The two series handed to \<open>align_time_series\<close>: with \<open>len_df\<close> the number of rows of the
  current indicator's table, \<open>last_idx = max(-21, -len(df))\<close> and both MAP columns of
  the merged table are cut with \<open>.iloc[-last_idx:]\<close>.
\<close>

definition lag_window :: "nat \<Rightarrow> 'a list \<Rightarrow> 'a list \<Rightarrow> 'a list \<times> 'a list" where
  "lag_window len_df map_cases map_indicator =
     (let last_idx = max (- 21) (- int len_df)
      in (py_slice_from (- last_idx) map_cases, py_slice_from (- last_idx) map_indicator))"


section \<open>The composite estimate of \<open>infer_all\<close>\<close>

text \<open>
  A table maps a column name to its values, one per date; a missing value (NaN) is
  \<open>None\<close>. \<open>df_all\<close> itself is \<open>None\<close> when no indicator produced a table.
\<close>

type_synonym column = "real option list"

type_synonym frame = "string \<rightharpoonup> column"

text \<open>\<open>np.nanmean\<close> of one row: the mean of the values present, NaN when none is.\<close>

definition nanmean :: "real option list \<Rightarrow> real option" where
  "nanmean vs =
     (let present = List.map_filter (\<lambda>v. v) vs
      in if present = [] then None else Some (sum_list present / real (length present)))"

definition composite :: "frame option \<Rightarrow> py_error + frame option" where
  "composite df_all =
     (case df_all of
        None \<Rightarrow> Inr None
      | Some df \<Rightarrow>
          (case (df ''Rt_MAP__new_deaths'', df ''Rt_MAP__new_cases'') of
             (Some deaths, Some cases) \<Rightarrow>
               (let df1 = df(''Rt_MAP_composite'' \<mapsto> map2 (\<lambda>c d. nanmean [c, d]) cases deaths)
                in case df1 ''Rt_ci95__new_cases'' of
                     None \<Rightarrow> Inl (KeyError (Name ''Rt_ci95__new_cases''))
                   | Some band \<Rightarrow> Inr (Some (df1(''Rt_ci95_composite'' \<mapsto> band))))
           | (None, Some cases) \<Rightarrow>
               (let df1 = df(''Rt_MAP_composite'' \<mapsto> cases)
                in case df1 ''Rt_ci95__new_cases'' of
                     None \<Rightarrow> Inl (KeyError (Name ''Rt_ci95__new_cases''))
                   | Some band \<Rightarrow> Inr (Some (df1(''Rt_ci95_composite'' \<mapsto> band))))
           | (_, None) \<Rightarrow> Inr (Some df)))"

definition deaths_only_frame :: frame where
  "deaths_only_frame = [''Rt_MAP__new_deaths'' \<mapsto> [Some 1, Some 2]]"

definition cases_deaths_frame :: frame where
  "cases_deaths_frame =
     [''Rt_MAP__new_cases'' \<mapsto> [Some 1, Some 2, None],
      ''Rt_ci95__new_cases'' \<mapsto> [Some 2, Some 3, None],
      ''Rt_MAP__new_deaths'' \<mapsto> [Some 3, None, None]]"


section \<open>Posterior engine: \<open>get_posteriors\<close>\<close>

text \<open>
  The three scipy distributions the engine calls are parameters of the model:
  \<open>poisson_pmf k mu\<close> is \<open>sps.poisson.pmf(k, mu)\<close>, \<open>norm_pdf loc scale x\<close> is
  \<open>sps.norm(loc, scale).pdf(x)\<close> and \<open>gamma_pdf a x\<close> is \<open>sps.gamma(a).pdf(x)\<close>.
\<close>

record scipy_stats =
  poisson_pmf :: "real \<Rightarrow> real \<Rightarrow> real"
  norm_pdf :: "real \<Rightarrow> real \<Rightarrow> real \<Rightarrow> real"
  gamma_pdf :: "real \<Rightarrow> real \<Rightarrow> real"

text \<open>
  The textbook densities, used as the concrete instance: the Poisson mass function (zero
  off the non-negative integers, and the point mass at zero for \<open>mu = 0\<close>), the Gaussian
  density, and the Gamma density with its constant written out for the two shapes the
  engine uses, \<open>\<Gamma>(2) = 1\<close> and \<open>\<Gamma>(5/2) = 3/4 * sqrt pi\<close>.
\<close>

definition ideal_stats :: scipy_stats where
  "ideal_stats =
     \<lparr> poisson_pmf = (\<lambda>k mu. if 0 \<le> k \<and> of_int \<lfloor>k\<rfloor> = k
                               then mu ^ nat \<lfloor>k\<rfloor> * exp (- mu) / fact (nat \<lfloor>k\<rfloor>) else 0),
       norm_pdf = (\<lambda>loc scale x. exp (- (((x - loc) / scale) ^ 2) / 2) / (scale * sqrt (2 * pi))),
       gamma_pdf = (\<lambda>a x. if x < 0 then 0
                           else x powr (a - 1) * exp (- x) / (if a = 5 / 2 then 3 / 4 * sqrt pi else 1)) \<rparr>"

text \<open>
  The running log-likelihood is a float that can leave the reals: \<open>np.log(0)\<close> is
  \<open>-inf\<close>, \<open>np.log\<close> of a negative number is NaN, and both are absorbing under \<open>+\<close>
  (NaN first).
\<close>

datatype npfloat = Finite real | NegInf | NaN

definition np_log :: "real \<Rightarrow> npfloat" where
  "np_log z = (if z = 0 then NegInf else if z < 0 then NaN else Finite (ln z))"

fun np_add :: "npfloat \<Rightarrow> npfloat \<Rightarrow> npfloat" where
  "np_add NaN b = NaN"
| "np_add a NaN = NaN"
| "np_add NegInf b = NegInf"
| "np_add a NegInf = NegInf"
| "np_add (Finite a) (Finite b) = Finite (a + b)"

text \<open>\<open>v /= v.sum()\<close>.\<close>

definition normalize :: "real list \<Rightarrow> real list" where
  "normalize v = map (\<lambda>p. p / sum_list v) v"

text \<open>
  Steps (1) and (2): one likelihood column per day after the first, one entry per grid
  value \<open>R\<close>: \<open>poisson.pmf(k_t, k_{t-1} * exp((R - 1) / serial_period))\<close>.
\<close>

definition likelihoods :: "scipy_stats \<Rightarrow> engine \<Rightarrow> real list \<Rightarrow> real list list" where
  "likelihoods sps self timeseries =
     map (\<lambda>(prev, cur).
            map (\<lambda>r. poisson_pmf sps cur (prev * exp ((r - 1) / serial_period self)))
              (r_list self))
       (zip (butlast timeseries) (tl timeseries))"

text \<open>
  Steps (3) and (3a): the matrix as a list of rows; row \<open>i\<close>, column \<open>j\<close> holds the density
  of the Gaussian centred at \<open>r_list[j]\<close> at the point \<open>r_list[i]\<close>, divided by the sum
  of column \<open>j\<close>.
\<close>

definition process_matrix :: "scipy_stats \<Rightarrow> engine \<Rightarrow> real list list" where
  "process_matrix sps self =
     (let raw = map (\<lambda>x. map (\<lambda>loc. norm_pdf sps loc (process_sigma self) x) (r_list self))
                  (r_list self);
          col_sums = map (\<lambda>loc. sum_list (map (\<lambda>x. norm_pdf sps loc (process_sigma self) x)
                                             (r_list self)))
                       (r_list self)
      in map (\<lambda>row. map2 (/) row col_sums) raw)"

text \<open>\<open>process_matrix @ v\<close>.\<close>

definition matvec :: "real list list \<Rightarrow> real list \<Rightarrow> real list" where
  "matvec M v = map (\<lambda>row. sum_list (map2 (*) row v)) M"

text \<open>
  Step (5), the loop over consecutive days: the state is the previous day's posterior
  and the running log-likelihood; the result is the list of the new posteriors and the
  final log-likelihood.
\<close>

fun bayes_loop ::
  "real list list \<Rightarrow> real list \<Rightarrow> real list list \<Rightarrow> real list \<Rightarrow> npfloat
     \<Rightarrow> real list list \<times> npfloat" where
  "bayes_loop pm reinit_prior [] previous log_likelihood = ([], log_likelihood)"
| "bayes_loop pm reinit_prior (likelihood # rest) previous log_likelihood =
     (let current_prior = matvec pm previous;
          numerator = map2 (*) likelihood current_prior;
          denominator = sum_list numerator;
          posterior = (if denominator = 0 then reinit_prior
                       else map (\<lambda>v. v / denominator) numerator);
          (later, total) = bayes_loop pm reinit_prior rest posterior
                             (np_add log_likelihood (np_log denominator))
      in (posterior # later, total))"

record posterior_run =
  run_dates :: "int list"
  run_times :: "int list"
  run_posteriors :: "real list list"
  run_start_idx :: int
  run_log_likelihood :: npfloat

text \<open>
  \<open>get_posteriors\<close>, from the smoothed series on: the argument is what
  \<open>apply_gaussian_smoothing\<close> returned. \<open>None\<close> stands for the tuple of four \<open>None\<close>s;
  \<open>run_log_likelihood\<close> is the value assigned to \<open>self.log_likelihood\<close>. The posteriors are
  a list of columns, one per day, each over the grid \<open>r_list\<close>.
\<close>

definition get_posteriors ::
  "scipy_stats \<Rightarrow> engine \<Rightarrow> int list \<times> int list \<times> real list \<Rightarrow> posterior_run option" where
  "get_posteriors sps self smoothed =
     (case smoothed of (dates, times', timeseries) \<Rightarrow>
        if length timeseries = 0 then None
        else
          (let prior0 = normalize (map (gamma_pdf sps (5 / 2)) (r_list self));
               reinit_prior = normalize (map (gamma_pdf sps 2) (r_list self));
               (later, total) = bayes_loop (process_matrix sps self) reinit_prior
                                  (likelihoods sps self timeseries) prior0 (Finite 0);
               idx = - int (length (prior0 # later))
           in Some \<lparr> run_dates = py_slice_from idx dates, run_times = py_slice_from idx times',
                     run_posteriors = prior0 # later, run_start_idx = idx,
                     run_log_likelihood = total \<rparr>))"

text \<open>
  A posterior in the words of the specification: non-negative entries that sum to one.
\<close>

definition distribution :: "real list \<Rightarrow> bool" where
  "distribution p = ((\<forall>v\<in>set p. 0 \<le> v) \<and> sum_list p = 1)"


section \<open>Float64 arithmetic\<close>

text \<open>
  The credible-interval bounds are decided by comparisons of float64 distances, so their
  model rounds: every arithmetic result is rounded to the nearest float64, ties to the
  even significand. \<open>rne\<close> rounds a real to the nearest integer, ties to even;
  \<open>float_exponent\<close> is the binary exponent \<open>e\<close> with \<open>2^e \<le> |x| < 2^(e+1)\<close>; \<open>round64\<close>
  keeps 53 significant bits. The exponent range is left unbounded (no overflow, no
  subnormal numbers), which no value between \<open>2^-1022\<close> and \<open>2^1023\<close> notices.
\<close>

definition rne :: "real \<Rightarrow> int" where
  "rne q =
     (if q - of_int \<lfloor>q\<rfloor> < 1 / 2 then \<lfloor>q\<rfloor>
      else if 1 / 2 < q - of_int \<lfloor>q\<rfloor> then \<lfloor>q\<rfloor> + 1
      else if even \<lfloor>q\<rfloor> then \<lfloor>q\<rfloor> else \<lfloor>q\<rfloor> + 1)"

definition float_exponent :: "real \<Rightarrow> int" where
  "float_exponent x = \<lfloor>log 2 \<bar>x\<bar>\<rfloor>"

definition round64 :: "real \<Rightarrow> real" where
  "round64 x =
     (if x = 0 then 0
      else sgn x * of_int (rne (\<bar>x\<bar> / 2 powr of_int (float_exponent x - 52)))
             * 2 powr of_int (float_exponent x - 52))"


section \<open>Credible intervals: \<open>highest_density_interval\<close>\<close>

text \<open>
  \<open>cumsum\<close> along the grid axis of one day's column: the first entry is the column's own
  first entry, every later one the rounded sum of its predecessor and the next entry.
\<close>

fun cumsum_from :: "real \<Rightarrow> real list \<Rightarrow> real list" where
  "cumsum_from acc [] = []"
| "cumsum_from acc (p # ps) = round64 (acc + p) # cumsum_from (round64 (acc + p)) ps"

definition cumsum :: "real list \<Rightarrow> real list" where
  "cumsum ps = (case ps of [] \<Rightarrow> [] | p # rest \<Rightarrow> p # cumsum_from p rest)"










section \<open>Properties of the outlier filter\<close>

lemma shift1_nth:
  "i < length ys \<Longrightarrow> shift1 ys ! i = (if i = 0 then None else ys ! (i - 1))"
  by (cases i) (simp_all add: shift1_def)

lemma length_shift1 [simp]: "length (shift1 ys) = length ys"
  by (simp add: shift1_def)

lemma length_rolling [simp]: "length (rolling W f x) = length x"
  by (simp add: rolling_def)

lemma shifted_rolling_nth:
  "0 < W \<Longrightarrow> i < length x \<Longrightarrow>
   shift1 (rolling W f x) ! i =
     (if W \<le> i then Some (f (take W (drop (i - W) x))) else None)"
  by (cases i) (auto simp add: shift1_nth rolling_def)

lemma length_z_score [simp]: "length (z_score x m s) = length x"
  by (simp add: z_score_def)

text \<open>The loop's test, on the statistics the code computes, is the condition of the specification.\<close>

lemma possible_iff:
  assumes "0 < W"
  shows "i \<in> set (possible_changes_idx
                    (z_score x (shift1 (rolling W mean x)) (shift1 (rolling W std0 x))) t)
           \<and> mean_exceeds (shift1 (rolling W mean x)) mm i
         \<longleftrightarrow> outlier_at W t mm x i"
  using assms
  by (auto simp add: possible_changes_idx_def z_score_def shifted_rolling_nth
        mean_exceeds_def outlier_at_def split: option.splits if_splits)

lemma possible_sorted: "sorted_wrt (<) (possible_changes_idx z t)"
  by (simp add: possible_changes_idx_def sorted_wrt_filter)

lemma possible_bounds:
  assumes "0 < W"
    and "j \<in> set (possible_changes_idx
                     (z_score x (shift1 (rolling W mean x)) (shift1 (rolling W std0 x))) t)"
  shows "0 < j \<and> j < length x"
  using assms
  by (auto simp add: possible_changes_idx_def z_score_def shifted_rolling_nth
        split: option.splits if_splits)

text \<open>The assignment succeeds on an inner point and raises on the last one.\<close>

lemma replace_at_inner:
  "0 < idx \<Longrightarrow> idx + 1 < length x \<Longrightarrow>
   replace_at x idx = Inr (x[idx := (x ! (idx - 1) + x ! (idx + 1)) / 2])"
  by (simp add: replace_at_def series_get_def nat_diff_distrib' nat_add_distrib)

lemma replace_at_last:
  "0 < idx \<Longrightarrow> idx + 1 = length x \<Longrightarrow>
   replace_at x idx = Inl (KeyError (Label (int (length x))))"
  by (auto simp add: replace_at_def series_get_def except_IndexError_def)

lemma replace_at_Inr: "replace_at x idx = Inr x' \<Longrightarrow> \<exists>v. x' = x[idx := v]"
  by (auto simp add: replace_at_def except_IndexError_def series_get_def
        split: sum.splits if_splits)

lemma outlier_loop_untouched:
  "i \<notin> set (filter (mean_exceeds m mm) idxs) \<Longrightarrow>
   fst (fst (outlier_loop m mm idxs (x, c))) ! i = x ! i"
proof (induction idxs arbitrary: x c)
  case Nil
  then show ?case by simp
next
  case (Cons idx rest)
  show ?case
  proof (cases "mean_exceeds m mm idx")
    case False
    then show ?thesis using Cons by simp
  next
    case True
    then have ne: "i \<noteq> idx" and later: "i \<notin> set (filter (mean_exceeds m mm) rest)"
      using Cons.prems by auto
    show ?thesis
    proof (cases "replace_at x idx")
      case (Inl e)
      then show ?thesis using True by simp
    next
      case (Inr x')
      then obtain v where "x' = x[idx := v]" using replace_at_Inr by blast
      then have "x' ! i = x ! i" using ne by simp
      then show ?thesis using True Inr Cons.IH[OF later, of x' "c @ [idx]"] by simp
    qed
  qed
qed

lemma outlier_loop_length:
  "length (fst (fst (outlier_loop m mm idxs (x, c)))) = length x"
proof (induction idxs arbitrary: x c)
  case Nil
  then show ?case by simp
next
  case (Cons idx rest)
  show ?case
  proof (cases "mean_exceeds m mm idx")
    case False
    then show ?thesis using Cons by simp
  next
    case True
    show ?thesis
    proof (cases "replace_at x idx")
      case (Inl e)
      then show ?thesis using True by simp
    next
      case (Inr x')
      then obtain v where "x' = x[idx := v]" using replace_at_Inr by blast
      then have "length x' = length x" by simp
      then show ?thesis using True Inr Cons.IH[of x' "c @ [idx]"] by simp
    qed
  qed
qed

text \<open>When no index to replace is the last one, the loop runs to its end.\<close>

lemma outlier_loop_returns:
  assumes "\<forall>j\<in>set idxs. 0 < j \<and> j < length x"
    and "\<forall>j\<in>set idxs. mean_exceeds m mm j \<longrightarrow> j + 1 < length x"
  shows "snd (outlier_loop m mm idxs (x, c)) = None
       \<and> snd (fst (outlier_loop m mm idxs (x, c))) = c @ filter (mean_exceeds m mm) idxs"
  using assms
proof (induction idxs arbitrary: x c)
  case Nil
  then show ?case by simp
next
  case (Cons idx rest)
  show ?case
  proof (cases "mean_exceeds m mm idx")
    case False
    then show ?thesis using Cons by simp
  next
    case True
    then have pos: "0 < idx" and inner: "idx + 1 < length x" using Cons.prems by auto
    define x' where "x' = x[idx := (x ! (idx - 1) + x ! (idx + 1)) / 2]"
    have step: "replace_at x idx = Inr x'"
      unfolding x'_def by (rule replace_at_inner[OF pos inner])
    have b: "\<forall>j\<in>set rest. 0 < j \<and> j < length x'" using Cons.prems(1) by (simp add: x'_def)
    have n: "\<forall>j\<in>set rest. mean_exceeds m mm j \<longrightarrow> j + 1 < length x'"
      using Cons.prems(2) by (simp add: x'_def)
    show ?thesis using True step Cons.IH[OF b n, of "c @ [idx]"] by simp
  qed
qed

text \<open>
  A replaced point holds the mean of its left neighbour as the loop left it and of its
  right neighbour as the input had it: the loop runs through increasing indices, so the
  left neighbour is final and the right one still untouched when the point is written.
\<close>

lemma outlier_loop_replaced:
  assumes "sorted_wrt (<) idxs" and "\<forall>j\<in>set idxs. 0 < j \<and> j < length x"
    and "\<forall>j\<in>set idxs. mean_exceeds m mm j \<longrightarrow> j + 1 < length x"
    and "i \<in> set idxs" and "mean_exceeds m mm i"
  shows "fst (fst (outlier_loop m mm idxs (x, c))) ! i =
           (fst (fst (outlier_loop m mm idxs (x, c))) ! (i - 1) + x ! (i + 1)) / 2"
  using assms
proof (induction idxs arbitrary: x c)
  case Nil
  then show ?case by simp
next
  case (Cons idx rest)
  have later: "\<forall>j\<in>set rest. idx < j" using Cons.prems(1) by simp
  have sr: "sorted_wrt (<) rest" using Cons.prems(1) by simp
  define x' where "x' = x[idx := (x ! (idx - 1) + x ! (idx + 1)) / 2]"
  show ?case
  proof (cases "i = idx")
    case True
    have n1: "idx \<notin> set (filter (mean_exceeds m mm) rest)"
      using later by auto
    have n2: "idx - 1 \<notin> set (filter (mean_exceeds m mm) rest)"
      using later by auto
    have pos: "0 < idx" "idx < length x" "idx + 1 < length x"
      using Cons.prems(2,3,5) True by auto
    define y where "y = fst (fst (outlier_loop m mm rest (x', c @ [idx])))"
    have step: "replace_at x idx = Inr x'"
      unfolding x'_def by (rule replace_at_inner[OF pos(1,3)])
    have run: "fst (fst (outlier_loop m mm (idx # rest) (x, c))) = y"
      using True Cons.prems(5) step by (simp add: y_def)
    have y1: "y ! idx = x' ! idx"
      unfolding y_def by (rule outlier_loop_untouched[OF n1])
    have y2: "y ! (idx - 1) = x' ! (idx - 1)"
      unfolding y_def by (rule outlier_loop_untouched[OF n2])
    have x1: "x' ! (idx - 1) = x ! (idx - 1)"
      using pos by (simp add: x'_def)
    have x2: "x' ! idx = (x ! (idx - 1) + x ! (idx + 1)) / 2"
      using pos by (simp add: x'_def)
    show ?thesis unfolding run True y1 y2 x1 x2 by simp
  next
    case False
    then have irest: "i \<in> set rest" using Cons.prems(4) by simp
    then have gt: "idx < i" using later by blast
    show ?thesis
    proof (cases "mean_exceeds m mm idx")
      case True
      then have pos: "0 < idx" "idx + 1 < length x" using Cons.prems(2,3) by auto
      have step: "replace_at x idx = Inr x'"
        unfolding x'_def by (rule replace_at_inner[OF pos])
      have b: "\<forall>j\<in>set rest. 0 < j \<and> j < length x'"
        using Cons.prems(2) by (simp add: x'_def)
      have n: "\<forall>j\<in>set rest. mean_exceeds m mm j \<longrightarrow> j + 1 < length x'"
        using Cons.prems(3) by (simp add: x'_def)
      have "x' ! (i + 1) = x ! (i + 1)"
        using gt by (simp add: x'_def)
      then show ?thesis
        using Cons.IH[OF sr b n irest Cons.prems(5), of "c @ [idx]"] True step by simp
    next
      case False
      have b: "\<forall>j\<in>set rest. 0 < j \<and> j < length x" using Cons.prems(2) by simp
      have n: "\<forall>j\<in>set rest. mean_exceeds m mm j \<longrightarrow> j + 1 < length x"
        using Cons.prems(3) by simp
      show ?thesis using Cons.IH[OF sr b n irest Cons.prems(5), of c] False by simp
    qed
  qed
qed

text \<open>When the last index is one to replace, the loop ends in the \<open>KeyError\<close> of the lookup.\<close>

lemma outlier_loop_raises:
  assumes "sorted_wrt (<) idxs" and "\<forall>j\<in>set idxs. 0 < j \<and> j < length x"
    and "i \<in> set idxs" and "mean_exceeds m mm i" and "i + 1 = length x"
  shows "snd (outlier_loop m mm idxs (x, c)) = Some (KeyError (Label (int (length x))))"
  using assms
proof (induction idxs arbitrary: x c)
  case Nil
  then show ?case by simp
next
  case (Cons idx rest)
  have later: "\<forall>j\<in>set rest. idx < j" using Cons.prems(1) by simp
  have sr: "sorted_wrt (<) rest" using Cons.prems(1) by simp
  show ?case
  proof (cases "i = idx")
    case True
    have "0 < idx" using Cons.prems(2) by simp
    then have "replace_at x idx = Inl (KeyError (Label (int (length x))))"
      using Cons.prems(5) True by (simp add: replace_at_last)
    then show ?thesis using True Cons.prems(4) by simp
  next
    case False
    then have irest: "i \<in> set rest" using Cons.prems(3) by simp
    then have gt: "idx < i" using later by blast
    show ?thesis
    proof (cases "mean_exceeds m mm idx")
      case True
      have pos: "0 < idx" "idx + 1 < length x" using Cons.prems(2,5) gt by auto
      define x' where "x' = x[idx := (x ! (idx - 1) + x ! (idx + 1)) / 2]"
      have step: "replace_at x idx = Inr x'"
        unfolding x'_def by (rule replace_at_inner[OF pos])
      have b: "\<forall>j\<in>set rest. 0 < j \<and> j < length x'"
        using Cons.prems(2) by (simp add: x'_def)
      have l: "i + 1 = length x'" using Cons.prems(5) by (simp add: x'_def)
      have "length x' = length x" by (simp add: x'_def)
      then show ?thesis
        using Cons.IH[OF sr b irest Cons.prems(4) l, of "c @ [idx]"] True step by simp
    next
      case False
      have b: "\<forall>j\<in>set rest. 0 < j \<and> j < length x" using Cons.prems(2) by simp
      show ?thesis using Cons.IH[OF sr b irest Cons.prems(4,5), of c] False by simp
    qed
  qed
qed

lemma length_series_after [simp]: "length (series_after W t mm x) = length x"
  by (simp add: series_after_def replace_outliers_run_def Let_def outlier_loop_length)

lemma series_after_untouched:
  assumes "0 < W" and "\<not> outlier_at W t mm x i"
  shows "series_after W t mm x ! i = x ! i"
proof -
  have "i \<notin> set (filter (mean_exceeds (shift1 (rolling W mean x)) mm)
            (possible_changes_idx
               (z_score x (shift1 (rolling W mean x)) (shift1 (rolling W std0 x))) t))"
    using possible_iff[OF assms(1), of i x t mm] assms(2) by auto
  then show ?thesis
    by (simp add: series_after_def replace_outliers_run_def Let_def outlier_loop_untouched)
qed

text \<open>The two outcomes of a call, by whether the last point meets the replacement condition.\<close>

lemma replace_outliers_returns:
  assumes "0 < W" and "\<not> outlier_at W t mm x (length x - 1)"
  shows "replace_outliers W t mm x = Inr (series_after W t mm x)"
    and "replace_outliers_run W t mm x
           = ((series_after W t mm x, changed_idx_of W t mm x), None)"
    and "i \<in> set (changed_idx_of W t mm x) \<longleftrightarrow> outlier_at W t mm x i"
    and "outlier_at W t mm x i \<Longrightarrow>
           series_after W t mm x ! i = (series_after W t mm x ! (i - 1) + x ! (i + 1)) / 2"
proof -
  define m where "m = shift1 (rolling W mean x)"
  define idxs where
    "idxs = possible_changes_idx (z_score x m (shift1 (rolling W std0 x))) t"
  have run: "replace_outliers_run W t mm x = outlier_loop m mm idxs (x, [])"
    by (simp add: replace_outliers_run_def Let_def m_def idxs_def)
  have iff: "j \<in> set idxs \<and> mean_exceeds m mm j \<longleftrightarrow> outlier_at W t mm x j" for j
    unfolding idxs_def m_def by (rule possible_iff[OF assms(1)])
  have srt: "sorted_wrt (<) idxs" unfolding idxs_def by (rule possible_sorted)
  have bnd: "\<forall>j\<in>set idxs. 0 < j \<and> j < length x"
    unfolding idxs_def m_def using possible_bounds[OF assms(1)] by blast
  have inner: "\<forall>j\<in>set idxs. mean_exceeds m mm j \<longrightarrow> j + 1 < length x"
  proof (intro ballI impI)
    fix j assume "j \<in> set idxs" and "mean_exceeds m mm j"
    then have o: "outlier_at W t mm x j" using iff by blast
    then have "j < length x" by (simp add: outlier_at_def)
    moreover have "j \<noteq> length x - 1" using o assms(2) by auto
    ultimately show "j + 1 < length x" by simp
  qed
  have ok: "snd (outlier_loop m mm idxs (x, [])) = None"
    and ch: "snd (fst (outlier_loop m mm idxs (x, []))) = [] @ filter (mean_exceeds m mm) idxs"
    using outlier_loop_returns[OF bnd inner, of "[]"] by simp_all
  show r: "replace_outliers_run W t mm x
             = ((series_after W t mm x, changed_idx_of W t mm x), None)"
    using ok by (simp add: series_after_def changed_idx_of_def run prod_eq_iff)
  show "replace_outliers W t mm x = Inr (series_after W t mm x)"
    by (simp add: replace_outliers_def r)
  show "i \<in> set (changed_idx_of W t mm x) \<longleftrightarrow> outlier_at W t mm x i"
    using ch iff[of i] by (simp add: changed_idx_of_def run)
  show "series_after W t mm x ! i = (series_after W t mm x ! (i - 1) + x ! (i + 1)) / 2"
    if "outlier_at W t mm x i"
  proof -
    from that have "i \<in> set idxs" "mean_exceeds m mm i" using iff by auto
    from outlier_loop_replaced[OF srt bnd inner this, of "[]"] show ?thesis
      by (simp add: series_after_def run)
  qed
qed

lemma replace_outliers_raises:
  assumes "0 < W" and "outlier_at W t mm x (length x - 1)"
  shows "replace_outliers W t mm x = Inl (KeyError (Label (int (length x))))"
    and "snd (replace_outliers_run W t mm x) = Some (KeyError (Label (int (length x))))"
proof -
  define m where "m = shift1 (rolling W mean x)"
  define idxs where
    "idxs = possible_changes_idx (z_score x m (shift1 (rolling W std0 x))) t"
  have run: "replace_outliers_run W t mm x = outlier_loop m mm idxs (x, [])"
    by (simp add: replace_outliers_run_def Let_def m_def idxs_def)
  have iff: "j \<in> set idxs \<and> mean_exceeds m mm j \<longleftrightarrow> outlier_at W t mm x j" for j
    unfolding idxs_def m_def by (rule possible_iff[OF assms(1)])
  have srt: "sorted_wrt (<) idxs" unfolding idxs_def by (rule possible_sorted)
  have bnd: "\<forall>j\<in>set idxs. 0 < j \<and> j < length x"
    unfolding idxs_def m_def using possible_bounds[OF assms(1)] by blast
  have last: "length x - 1 \<in> set idxs" "mean_exceeds m mm (length x - 1)"
    using iff assms(2) by auto
  have "length x - 1 < length x" using assms(2) by (simp add: outlier_at_def)
  then have l: "length x - 1 + 1 = length x" by simp
  have e: "snd (outlier_loop m mm idxs (x, [])) = Some (KeyError (Label (int (length x))))"
    by (rule outlier_loop_raises[OF srt bnd last l])
  then show "replace_outliers W t mm x = Inl (KeyError (Label (int (length x))))"
    by (cases "outlier_loop m mm idxs (x, [])") (auto simp add: replace_outliers_def run)
  show "snd (replace_outliers_run W t mm x) = Some (KeyError (Label (int (length x))))"
    using e by (simp add: run)
qed

lemma std0_nonneg: "0 \<le> std0 w"
proof -
  have "0 \<le> sum_list (map (\<lambda>v. (v - mean w) ^ 2) w)"
    by (rule sum_list_nonneg) auto
  then show ?thesis by (simp add: std0_def mean_def[of "map _ w"])
qed

lemma not_outlier_below:
  assumes "x ! i \<le> mean (take W (drop (i - W) x))" and "0 \<le> t"
  shows "\<not> outlier_at W t mm x i"
proof -
  have "0 < std0 (take W (drop (i - W) x)) + EPSILON"
    using std0_nonneg[of "take W (drop (i - W) x)"] by (simp add: EPSILON_def add_nonneg_pos)
  then have "(x ! i - mean (take W (drop (i - W) x)))
               / (std0 (take W (drop (i - W) x)) + EPSILON) \<le> 0"
    using assms(1) by (simp add: divide_le_0_iff)
  then show ?thesis using assms(2) by (simp add: outlier_at_def)
qed

lemma not_outlier_early: "i < W \<Longrightarrow> \<not> outlier_at W t mm x i"
  by (simp add: outlier_at_def)

subsection \<open>The filter on the concrete series\<close>

lemma concrete_lengths:
  "length spike_series = 18" "length spike_filtered = 18" "length flat_series = 18"
  "length last_day_spike = 15"
  by (simp_all add: spike_series_def spike_filtered_def flat_series_def last_day_spike_def)

lemma spike_14: "outlier_at 14 10 5 spike_series 14"
  by (simp add: outlier_at_def spike_series_def mean_def std0_def EPSILON_def)

lemma spike_15: "\<not> outlier_at 14 10 5 spike_series 15"
  by (rule not_outlier_below) (simp_all add: spike_series_def mean_def)

lemma spike_16: "\<not> outlier_at 14 10 5 spike_series 16"
  by (rule not_outlier_below) (simp_all add: spike_series_def mean_def)

lemma spike_17: "\<not> outlier_at 14 10 5 spike_series 17"
  by (rule not_outlier_below) (simp_all add: spike_series_def mean_def)

lemma first_pass_values: "series_after 14 10 5 spike_series = spike_filtered"
proof (rule nth_equalityI)
  show "length (series_after 14 10 5 spike_series) = length spike_filtered"
    by (simp add: spike_series_def spike_filtered_def)
next
  fix i assume "i < length (series_after 14 10 5 spike_series)"
  then have "i < 18" by (simp add: spike_series_def)
  then consider "i < 14" | "i = 14" | "i = 15" | "i = 16" | "i = 17" by linarith
  then show "series_after 14 10 5 spike_series ! i = spike_filtered ! i"
  proof cases
    case 1
    then have "series_after 14 10 5 spike_series ! i = spike_series ! i"
      by (simp add: series_after_untouched not_outlier_early)
    moreover have "take 14 spike_series = take 14 spike_filtered"
      by (simp add: spike_series_def spike_filtered_def)
    then have "spike_series ! i = spike_filtered ! i" using 1 by (metis nth_take)
    ultimately show ?thesis by simp
  next
    case 2
    have last: "\<not> outlier_at 14 10 5 spike_series (length spike_series - 1)"
      using spike_17 by (simp add: concrete_lengths)
    have "series_after 14 10 5 spike_series ! 13 = spike_series ! 13"
      by (simp add: series_after_untouched not_outlier_early)
    then have "series_after 14 10 5 spike_series ! 14 = (spike_series ! 13 + spike_series ! 15) / 2"
      using replace_outliers_returns(4)[OF _ last spike_14] by simp
    then show ?thesis unfolding 2 by (simp add: spike_series_def spike_filtered_def)
  next
    case 3
    show ?thesis unfolding 3 using series_after_untouched[OF _ spike_15]
      by (simp add: spike_series_def spike_filtered_def)
  next
    case 4
    show ?thesis unfolding 4 using series_after_untouched[OF _ spike_16]
      by (simp add: spike_series_def spike_filtered_def)
  next
    case 5
    show ?thesis unfolding 5 using series_after_untouched[OF _ spike_17]
      by (simp add: spike_series_def spike_filtered_def)
  qed
qed

lemma first_pass: "replace_outliers 14 10 5 spike_series = Inr spike_filtered"
proof -
  have "\<not> outlier_at 14 10 5 spike_series (length spike_series - 1)"
    using spike_17 by (simp add: concrete_lengths)
  then show ?thesis using replace_outliers_returns(1)[of 14 10 5 spike_series]
    by (simp add: first_pass_values)
qed

lemma filtered_14: "\<not> outlier_at 14 10 5 spike_filtered 14"
  by (rule not_outlier_below) (simp_all add: spike_filtered_def mean_def)

lemma filtered_15: "\<not> outlier_at 14 10 5 spike_filtered 15"
  by (rule not_outlier_below) (simp_all add: spike_filtered_def mean_def)

lemma filtered_16: "outlier_at 14 10 5 spike_filtered 16"
  by (simp add: outlier_at_def spike_filtered_def mean_def std0_def EPSILON_def)

lemma filtered_17: "\<not> outlier_at 14 10 5 spike_filtered 17"
  by (rule not_outlier_below) (simp_all add: spike_filtered_def mean_def)

lemma second_pass_values: "series_after 14 10 5 spike_filtered = flat_series"
proof (rule nth_equalityI)
  show "length (series_after 14 10 5 spike_filtered) = length flat_series"
    by (simp add: spike_filtered_def flat_series_def)
next
  fix i assume "i < length (series_after 14 10 5 spike_filtered)"
  then have "i < 18" by (simp add: spike_filtered_def)
  then consider "i < 14" | "i = 14" | "i = 15" | "i = 16" | "i = 17" by linarith
  then show "series_after 14 10 5 spike_filtered ! i = flat_series ! i"
  proof cases
    case 1
    then have "series_after 14 10 5 spike_filtered ! i = spike_filtered ! i"
      by (simp add: series_after_untouched not_outlier_early)
    moreover have "take 14 spike_filtered = take 14 flat_series"
      by (simp add: spike_filtered_def flat_series_def)
    then have "spike_filtered ! i = flat_series ! i" using 1 by (metis nth_take)
    ultimately show ?thesis by simp
  next
    case 2
    show ?thesis unfolding 2 using series_after_untouched[OF _ filtered_14]
      by (simp add: spike_filtered_def flat_series_def)
  next
    case 3
    show ?thesis unfolding 3 using series_after_untouched[OF _ filtered_15]
      by (simp add: spike_filtered_def flat_series_def)
  next
    case 4
    have last: "\<not> outlier_at 14 10 5 spike_filtered (length spike_filtered - 1)"
      using filtered_17 by (simp add: concrete_lengths)
    have "series_after 14 10 5 spike_filtered ! 15 = spike_filtered ! 15"
      using series_after_untouched[OF _ filtered_15] by simp
    then have "series_after 14 10 5 spike_filtered ! 16
                 = (spike_filtered ! 15 + spike_filtered ! 17) / 2"
      using replace_outliers_returns(4)[OF _ last filtered_16] by simp
    then show ?thesis unfolding 4 by (simp add: spike_filtered_def flat_series_def)
  next
    case 5
    show ?thesis unfolding 5 using series_after_untouched[OF _ filtered_17]
      by (simp add: spike_filtered_def flat_series_def)
  qed
qed

lemma second_pass: "replace_outliers 14 10 5 spike_filtered = Inr flat_series"
proof -
  have "\<not> outlier_at 14 10 5 spike_filtered (length spike_filtered - 1)"
    using filtered_17 by (simp add: concrete_lengths)
  then show ?thesis using replace_outliers_returns(1)[of 14 10 5 spike_filtered]
    by (simp add: second_pass_values)
qed

lemma flat_no_outlier: "\<not> outlier_at 14 10 5 flat_series i"
proof (cases "i < 18")
  case False
  then show ?thesis by (simp add: outlier_at_def flat_series_def)
next
  case True
  then consider "i < 14" | "i = 14" | "i = 15" | "i = 16" | "i = 17" by linarith
  then show ?thesis
  proof cases
    case 1
    then show ?thesis by (rule not_outlier_early)
  next
    case 2
    show ?thesis unfolding 2 by (rule not_outlier_below) (simp_all add: flat_series_def mean_def)
  next
    case 3
    show ?thesis unfolding 3 by (rule not_outlier_below) (simp_all add: flat_series_def mean_def)
  next
    case 4
    show ?thesis unfolding 4 by (rule not_outlier_below) (simp_all add: flat_series_def mean_def)
  next
    case 5
    show ?thesis unfolding 5 by (rule not_outlier_below) (simp_all add: flat_series_def mean_def)
  qed
qed

lemma last_day_14: "outlier_at 14 10 5 last_day_spike 14"
  by (simp add: outlier_at_def last_day_spike_def mean_def std0_def EPSILON_def)

subsection \<open>Claims about the outlier filter\<close>

text \<open>
  C7. On a series whose last point meets the replacement condition (fourteen days at 10,
  then 1000) the call does not replace the point by its left neighbour: the lookup of the
  right neighbour raises \<open>KeyError\<close>, the clause \<open>except IndexError\<close> does not catch it,
  and the call ends in that exception.
\<close>

theorem replace_outliers_raises_on_last_point:
  "replace_outliers_default last_day_spike = Inl (KeyError (Label 15))"
proof -
  have "outlier_at 14 10 5 last_day_spike (length last_day_spike - 1)"
    using last_day_14 by (simp add: concrete_lengths)
  then have "replace_outliers 14 10 5 last_day_spike
               = Inl (KeyError (Label (int (length last_day_spike))))"
    by (rule replace_outliers_raises(1)[rotated]) simp
  then show ?thesis
    by (simp add: replace_outliers_default_def LOCAL_LOOKBACK_WINDOW_def Z_THRESHOLD_def
          MIN_MEAN_TO_CONSIDER_def concrete_lengths)
qed

text \<open>
  C9, as stated, fails: on the spike series the first pass replaces the spike at index 14
  only, and a second pass then replaces the point at index 16 as well.
\<close>

theorem replace_outliers_not_idempotent:
  "replace_outliers_twice spike_series \<noteq> replace_outliers_default spike_series"
proof -
  have one: "replace_outliers_default spike_series = Inr spike_filtered"
    by (simp add: replace_outliers_default_def LOCAL_LOOKBACK_WINDOW_def Z_THRESHOLD_def
          MIN_MEAN_TO_CONSIDER_def first_pass)
  have two: "replace_outliers_twice spike_series = Inr flat_series"
    by (simp add: replace_outliers_twice_def one)
      (simp add: replace_outliers_default_def LOCAL_LOOKBACK_WINDOW_def Z_THRESHOLD_def
          MIN_MEAN_TO_CONSIDER_def second_pass)
  have "flat_series ! 16 \<noteq> spike_filtered ! 16"
    by (simp add: flat_series_def spike_filtered_def)
  then have "flat_series \<noteq> spike_filtered" by auto
  then show ?thesis by (simp add: one two)
qed

text \<open>
  C9, amended: when the filter returns a series in which no point meets the replacement
  condition, a second pass returns that series unchanged.
\<close>

theorem replace_outliers_second_pass_fixed:
  assumes "0 < W" and "replace_outliers W t mm x = Inr y"
    and "\<forall>i<length y. \<not> outlier_at W t mm y i"
  shows "replace_outliers W t mm y = Inr y"
proof -
  have none: "\<not> outlier_at W t mm y i" for i
    using assms(3) by (cases "i < length y") (auto simp add: outlier_at_def)
  have "series_after W t mm y = y"
    by (rule nth_equalityI) (simp_all add: series_after_untouched[OF assms(1) none])
  then show ?thesis using replace_outliers_returns(1)[OF assms(1) none] by simp
qed

theorem replace_outliers_second_pass_fixed_witness:
  "replace_outliers 14 10 5 spike_filtered = Inr flat_series
   \<and> replace_outliers 14 10 5 flat_series = Inr flat_series"
proof -
  have a: "(0::nat) < 14" by simp
  have c: "\<forall>i<length flat_series. \<not> outlier_at 14 10 5 flat_series i"
    using flat_no_outlier by blast
  from replace_outliers_second_pass_fixed[OF a second_pass c] second_pass
  show ?thesis by simp
qed

text \<open>
  C10. The outlier step of the smoother overwrites the series it was given: with the
  engine's array holding the spike series, the call returns a Series on the same buffer,
  and after the step the array \<open>timeseries_og\<close> refers to, which is the engine's own,
  holds the filtered values, not the original ones.
\<close>

theorem remove_outliers_step_overwrites_original:
  "remove_outliers_step (Ndarray 0) [0 \<mapsto> spike_series]
     = Some (Ndarray 0, Inr (Series 0), [0 \<mapsto> spike_filtered])
   \<and> buffer (Ndarray 0) = buffer (Series 0)
   \<and> spike_filtered \<noteq> spike_series"
proof -
  have "spike_filtered ! 14 \<noteq> spike_series ! 14"
    by (simp add: spike_series_def spike_filtered_def)
  then have ne: "spike_filtered \<noteq> spike_series" by auto
  have "\<not> outlier_at 14 10 5 spike_series (length spike_series - 1)"
    using spike_17 by (simp add: concrete_lengths)
  then have "replace_outliers_run 14 10 5 spike_series
               = ((spike_filtered, changed_idx_of 14 10 5 spike_series), None)"
    using replace_outliers_returns(2)[of 14 10 5 spike_series] by (simp add: first_pass_values)
  then show ?thesis
    using ne
    by (simp add: remove_outliers_step_def replace_outliers_call_def pd_Series_def buffer_def
          LOCAL_LOOKBACK_WINDOW_def Z_THRESHOLD_def MIN_MEAN_TO_CONSIDER_def)
qed

section \<open>Properties of the engine's series selection\<close>

text \<open>
  C3. For every kind other than the two case kinds, \<open>get_timeseries\<close> returns the dates,
  times and counts of the new-deaths series: the test of the deaths branch is always
  true, so the hospitalization branch is never taken, and the series
  \<open>apply_gaussian_smoothing\<close> prepares for a hospitalization kind is the deaths series
  (cut as the hospitalization series would be).
\<close>

theorem get_timeseries_falls_into_deaths:
  assumes "t \<noteq> NEW_CASES" and "t \<noteq> RAW_NEW_CASES"
  shows "(t = NEW_DEATHS \<or> truthy RAW_NEW_DEATHS)
       \<and> get_timeseries self t
           = Some (case_dates self, case_times self, observed_new_deaths self)
       \<and> (t \<in> {NEW_HOSPITALIZATIONS, CURRENT_HOSPITALIZATIONS} \<longrightarrow>
            smoothing_input self t
              = Some (drop 2 (case_dates self), take 2 (case_times self),
                      drop 2 (observed_new_deaths self)))"
  using assms by (auto simp add: get_timeseries_def smoothing_input_def truthy_def)

theorem get_timeseries_falls_into_deaths_witness:
  "NEW_HOSPITALIZATIONS \<noteq> NEW_CASES \<and> NEW_HOSPITALIZATIONS \<noteq> RAW_NEW_CASES
   \<and> get_timeseries engine_one_hosp NEW_HOSPITALIZATIONS = Some ([0, 1, 2], [0, 1, 2], [0, 1, 0])
   \<and> hospitalizations engine_one_hosp = [7]
   \<and> smoothing_input engine_one_hosp NEW_HOSPITALIZATIONS = Some ([2], [0, 1], [0])"
proof -
  have a: "NEW_HOSPITALIZATIONS \<noteq> NEW_CASES" by simp
  have b: "NEW_HOSPITALIZATIONS \<noteq> RAW_NEW_CASES" by simp
  from get_timeseries_falls_into_deaths[OF a b, of engine_one_hosp]
  show ?thesis by (simp add: engine_one_hosp_def engine0_def)
qed

text \<open>
  C6. The hospitalization test of \<open>get_available_timeseries\<close> is true as soon as the
  series it reads is non-empty: an engine whose hospitalization series has one point
  and whose deaths series has three gets the hospitalization kind, and neither cases nor
  deaths, whose totals do not exceed the thresholds.
\<close>

theorem get_available_timeseries_one_hosp:
  "get_available_timeseries engine_one_hosp = Some [NEW_HOSPITALIZATIONS]
   \<and> length (hospitalizations engine_one_hosp) = 1
   \<and> length (observed_new_deaths engine_one_hosp) = 3"
  by (simp add: get_available_timeseries_def get_timeseries_def truthy_def
        engine_one_hosp_def engine0_def)

section \<open>Properties of the lag window\<close>

lemma lag_window_drop:
  "lag_window n a b = (drop (min 21 n) a, drop (min 21 n) b)"
proof -
  have "- max (- 21) (- int n) = int (min 21 n)" by simp
  then show ?thesis by (simp add: lag_window_def py_slice_from_def Let_def)
qed

text \<open>
  C5. On a table of 30 rows the two series handed to the alignment are rows 21 to 29,
  the nine rows left after the first 21 are dropped, not the last 21 rows; on a table of
  10 rows they are empty, not the whole series.
\<close>

theorem lag_window_drops_leading_rows:
  "lag_window 30 [0..<30] [0..<30] = ([21..<30], [21..<30])
   \<and> lag_window 10 [0..<10] [0..<10] = ([], [])"
  by (simp add: lag_window_drop)

section \<open>Properties of the composite estimate\<close>

lemma nanmean_pair:
  "nanmean [Some a, Some b] = Some ((a + b) / 2)"
  "nanmean [Some a, None] = Some a"
  "nanmean [None, Some b] = Some b"
  "nanmean [None, None] = None"
  by (simp_all add: nanmean_def)

text \<open>
  C4, as stated, fails when deaths is the only kind present: no composite column is
  produced at all.
\<close>

theorem composite_absent_for_deaths_only:
  "composite (Some deaths_only_frame) = Inr (Some deaths_only_frame)
   \<and> deaths_only_frame ''Rt_MAP__new_deaths'' = Some [Some 1, Some 2]
   \<and> deaths_only_frame ''Rt_MAP_composite'' = None"
  by (simp add: composite_def deaths_only_frame_def)

text \<open>
  C4, amended: when the cases MAP column and the deaths MAP column are both present, the
  composite on each date is the mean of the MAP values available on that date (missing
  when both are); when the cases column is present and the deaths column is not, the
  composite is the cases column; when the cases column is absent the table is returned
  as it is, with no composite; and whenever a composite is produced, its 95% band is the
  cases band.
\<close>

theorem composite_by_columns:
  "(df ''Rt_MAP__new_cases'' = Some cases \<and> df ''Rt_MAP__new_deaths'' = Some deaths
      \<and> df ''Rt_ci95__new_cases'' = Some band \<longrightarrow>
      composite (Some df)
        = Inr (Some (df(''Rt_MAP_composite'' \<mapsto> map2 (\<lambda>c d. nanmean [c, d]) cases deaths,
                        ''Rt_ci95_composite'' \<mapsto> band))))
   \<and> (df ''Rt_MAP__new_cases'' = Some cases \<and> df ''Rt_MAP__new_deaths'' = None
      \<and> df ''Rt_ci95__new_cases'' = Some band \<longrightarrow>
      composite (Some df)
        = Inr (Some (df(''Rt_MAP_composite'' \<mapsto> cases, ''Rt_ci95_composite'' \<mapsto> band))))
   \<and> (df ''Rt_MAP__new_cases'' = None \<longrightarrow> composite (Some df) = Inr (Some df))
   \<and> nanmean [Some a, Some b] = Some ((a + b) / 2)
   \<and> nanmean [Some a, None] = Some a
   \<and> nanmean [None, Some b] = Some b
   \<and> nanmean [None, None] = None"
  by (auto simp add: composite_def nanmean_pair split: option.splits)

theorem composite_by_columns_witness:
  "cases_deaths_frame ''Rt_MAP__new_cases'' = Some [Some 1, Some 2, None]
   \<and> cases_deaths_frame ''Rt_MAP__new_deaths'' = Some [Some 3, None, None]
   \<and> cases_deaths_frame ''Rt_ci95__new_cases'' = Some [Some 2, Some 3, None]
   \<and> composite (Some cases_deaths_frame)
       = Inr (Some (cases_deaths_frame
                      (''Rt_MAP_composite'' \<mapsto> [Some 2, Some 2, None],
                       ''Rt_ci95_composite'' \<mapsto> [Some 2, Some 3, None])))"
proof -
  have a: "cases_deaths_frame ''Rt_MAP__new_cases'' = Some [Some 1, Some 2, None]"
    by (simp add: cases_deaths_frame_def)
  have b: "cases_deaths_frame ''Rt_MAP__new_deaths'' = Some [Some 3, None, None]"
    by (simp add: cases_deaths_frame_def)
  have c: "cases_deaths_frame ''Rt_ci95__new_cases'' = Some [Some 2, Some 3, None]"
    by (simp add: cases_deaths_frame_def)
  from composite_by_columns[of cases_deaths_frame "[Some 1, Some 2, None]"
      "[Some 3, None, None]" "[Some 2, Some 3, None]" 1 3] a b c
  show ?thesis by (simp add: nanmean_pair)
qed


section \<open>Properties of float64 rounding\<close>

lemma rne_of_int [simp]: "rne (of_int n) = n"
  by (simp add: rne_def)

lemma rne_lower: "of_int n \<le> q \<Longrightarrow> n \<le> rne q"
proof -
  assume "of_int n \<le> q"
  then have "n \<le> \<lfloor>q\<rfloor>" by (simp add: le_floor_iff)
  then show ?thesis by (auto simp add: rne_def)
qed

lemma rne_upper: "q \<le> of_int n \<Longrightarrow> rne q \<le> n"
proof (cases "q = of_int n")
  case True
  then show ?thesis by simp
next
  case False
  assume "q \<le> of_int n"
  then have "q < of_int n" using False by simp
  then have "\<lfloor>q\<rfloor> < n" by (simp add: floor_less_iff)
  then show ?thesis by (auto simp add: rne_def)
qed


lemma float_exponent_bounds:
  assumes "0 < y"
  shows "2 powr of_int (float_exponent y) \<le> y"
    and "y < 2 powr (of_int (float_exponent y) + 1)"
proof -
  have "of_int (float_exponent y) \<le> log 2 y"
    using assms by (simp add: float_exponent_def)
  then show "2 powr of_int (float_exponent y) \<le> y"
    using assms by (simp add: le_log_iff)
  have "log 2 y < of_int (float_exponent y) + 1"
    using assms by (simp add: float_exponent_def)
  then show "y < 2 powr (of_int (float_exponent y) + 1)"
    using assms by (simp add: log_less_iff)
qed

lemma float_exponent_unique:
  assumes "0 < y" and "2 powr of_int e \<le> y" and "y < 2 powr (of_int e + 1)"
  shows "float_exponent y = e"
proof -
  have "of_int e \<le> log 2 y" using assms(1,2) by (simp add: le_log_iff)
  moreover have "log 2 y < of_int e + 1" using assms(1,3) by (simp add: log_less_iff)
  ultimately show ?thesis using assms(1) by (simp add: float_exponent_def floor_unique)
qed


text \<open>The rounding of a positive number, with its exponent \<open>e\<close> given.\<close>

lemma round64_pos:
  assumes "0 < y"
  shows "round64 y = of_int (rne (y / 2 powr of_int (float_exponent y - 52)))
                       * 2 powr of_int (float_exponent y - 52)"
  using assms by (simp add: round64_def)

lemma round64_minus: "round64 (- x) = - round64 x"
  by (simp add: round64_def float_exponent_def sgn_minus)

lemma round64_zero [simp]: "round64 0 = 0"
  by (simp add: round64_def)

lemma scaled_bounds:
  assumes "0 < y"
  shows "2 ^ 52 \<le> y / 2 powr of_int (float_exponent y - 52)"
    and "y / 2 powr of_int (float_exponent y - 52) < 2 ^ 53"
proof -
  define e where "e = float_exponent y"
  have u: "(2::real) powr of_int (e - 52) = 2 powr of_int e / 2 ^ 52"
    by (simp add: powr_diff)
  have up: "(2::real) powr (of_int e + 1) = 2 powr of_int e * 2"
    by (simp add: powr_add)
  have pos: "0 < 2 powr (of_int e :: real)" by simp
  have lo: "2 powr of_int e \<le> y"
    using float_exponent_bounds(1)[OF assms] by (simp add: e_def)
  have "y < 2 powr (of_int e + 1)"
    using float_exponent_bounds(2)[OF assms] by (simp add: e_def)
  then have hi: "y < 2 powr of_int e * 2" unfolding up .
  define c where "c = y / 2 powr of_int e"
  have q: "y / 2 powr of_int (e - 52) = c * 2 ^ 52"
    unfolding u c_def by simp
  have c1: "1 \<le> c" unfolding c_def using lo pos by (simp add: le_divide_eq)
  have c2: "c < 2" unfolding c_def using hi pos by (simp add: divide_less_eq mult.commute)
  have "1 * 2 ^ 52 \<le> c * (2 ^ 52 :: real)" by (rule mult_right_mono[OF c1]) simp
  then show "2 ^ 52 \<le> y / 2 powr of_int (float_exponent y - 52)"
    unfolding e_def[symmetric] q by simp
  have "c * (2 ^ 52 :: real) < 2 * 2 ^ 52" by (rule mult_strict_right_mono[OF c2]) simp
  then show "y / 2 powr of_int (float_exponent y - 52) < 2 ^ 53"
    unfolding e_def[symmetric] q by simp
qed

lemma significand_bounds:
  assumes "0 < y"
  shows "2 ^ 52 \<le> rne (y / 2 powr of_int (float_exponent y - 52))"
    and "rne (y / 2 powr of_int (float_exponent y - 52)) \<le> 2 ^ 53"
proof -
  have "of_int (2 ^ 52) \<le> y / 2 powr of_int (float_exponent y - 52)"
    using scaled_bounds(1)[OF assms] by simp
  then show "2 ^ 52 \<le> rne (y / 2 powr of_int (float_exponent y - 52))"
    by (rule rne_lower)
  have "y / 2 powr of_int (float_exponent y - 52) \<le> of_int (2 ^ 53)"
    using scaled_bounds(2)[OF assms] by simp
  then show "rne (y / 2 powr of_int (float_exponent y - 52)) \<le> 2 ^ 53"
    by (rule rne_upper)
qed

lemma round64_pos_bounds:
  assumes "0 < y"
  shows "2 powr of_int (float_exponent y) \<le> round64 y"
    and "round64 y \<le> 2 powr (of_int (float_exponent y) + 1)"
proof -
  define e where "e = float_exponent y"
  define n where "n = rne (y / 2 powr of_int (e - 52))"
  have r: "round64 y = of_int n * 2 powr of_int (e - 52)"
    using round64_pos[OF assms] by (simp add: n_def e_def)
  have u: "(2::real) powr of_int (e - 52) = 2 powr of_int e / 2 ^ 52"
    by (simp add: powr_diff)
  have up: "(2::real) powr (of_int e + 1) = 2 powr of_int e * 2"
    by (simp add: powr_add)
  have pos: "0 < 2 powr (of_int e :: real)" by simp
  have "2 ^ 52 \<le> n" "n \<le> 2 ^ 53"
    using significand_bounds[OF assms] by (simp_all add: n_def e_def)
  then have n: "(2 ^ 52 :: real) \<le> of_int n" "of_int n \<le> (2 ^ 53 :: real)"
    by (metis of_int_le_iff of_int_numeral of_int_power)+
  define c :: real where "c = of_int n / 2 ^ 52"
  define P :: real where "P = 2 powr of_int e"
  have Ppos: "0 \<le> P" by (simp add: P_def)
  have eq: "round64 y = c * P" unfolding r u c_def P_def by simp
  have c1: "1 \<le> c" unfolding c_def using n(1) by simp
  have c2: "c \<le> 2" unfolding c_def using n(2) by simp
  have "1 * P \<le> c * P" by (rule mult_right_mono[OF c1 Ppos])
  then show "2 powr of_int (float_exponent y) \<le> round64 y"
    unfolding eq e_def[symmetric] P_def[symmetric] by simp
  have "c * P \<le> 2 * P" by (rule mult_right_mono[OF c2 Ppos])
  then show "round64 y \<le> 2 powr (of_int (float_exponent y) + 1)"
    unfolding eq e_def[symmetric] up P_def[symmetric] by simp
qed

lemma round64_pos_positive: "0 < y \<Longrightarrow> 0 < round64 y"
proof -
  assume "0 < y"
  then have "2 powr of_int (float_exponent y) \<le> round64 y" by (rule round64_pos_bounds(1))
  moreover have "(0::real) < 2 powr of_int (float_exponent y)" by simp
  ultimately show ?thesis by linarith
qed




text \<open>Rounding a float64 changes nothing.\<close>

lemma round64_idem_pos:
  assumes "0 < y"
  shows "round64 (round64 y) = round64 y"
proof -
  define e where "e = float_exponent y"
  define n where "n = rne (y / 2 powr of_int (e - 52))"
  define r where "r = round64 y"
  have r: "r = of_int n * 2 powr of_int (e - 52)"
    using round64_pos[OF assms] by (simp add: n_def e_def r_def)
  have rpos: "0 < r" unfolding r_def by (rule round64_pos_positive[OF assms])
  have lo: "2 powr of_int e \<le> r" and hi: "r \<le> 2 powr (of_int e + 1)"
    using round64_pos_bounds[OF assms] by (simp_all add: e_def r_def)
  show ?thesis
  proof (cases "r < 2 powr (of_int e + 1)")
    case True
    have ex: "float_exponent r = e" by (rule float_exponent_unique[OF rpos lo True])
    have "r / 2 powr of_int (e - 52) = of_int n" unfolding r by simp
    then have "round64 r = of_int n * 2 powr of_int (e - 52)"
      using round64_pos[OF rpos] ex by simp
    then show ?thesis using r by (simp add: r_def)
  next
    case False
    then have req: "r = 2 powr (of_int e + 1)" using hi by simp
    have e1: "(of_int (e + 1) :: real) = of_int e + 1" by simp
    have a: "2 powr of_int (e + 1) \<le> r" unfolding e1 req by simp
    have b: "r < 2 powr (of_int (e + 1) + 1)" unfolding e1 req by simp
    have ex: "float_exponent r = e + 1" by (rule float_exponent_unique[OF rpos a b])
    have split: "(2::real) powr (of_int e + 1) = 2 ^ 52 * 2 powr of_int (e + 1 - 52)"
    proof -
      have "(of_int e + 1 :: real) = 52 + of_int (e + 1 - 52)" by simp
      then have "(2::real) powr (of_int e + 1) = 2 powr (52 + of_int (e + 1 - 52))"
        by (rule arg_cong)
      also have "\<dots> = 2 powr 52 * 2 powr of_int (e + 1 - 52)" by (rule powr_add)
      also have "\<dots> = 2 ^ 52 * 2 powr of_int (e + 1 - 52)" by simp
      finally show ?thesis .
    qed
    have upos: "(0::real) < 2 powr of_int (e + 1 - 52)" by simp
    have q: "r / 2 powr of_int (e + 1 - 52) = of_int (2 ^ 52)"
      unfolding req split using upos by simp
    have "round64 r = of_int (rne (of_int (2 ^ 52))) * 2 powr of_int (e + 1 - 52)"
      using round64_pos[OF rpos] unfolding ex q by simp
    also have "\<dots> = of_int (2 ^ 52) * 2 powr of_int (e + 1 - 52)"
      by (simp only: rne_of_int)
    also have "\<dots> = r" unfolding req split by simp
    finally show ?thesis by (simp add: r_def)
  qed
qed

lemma round64_idem [simp]: "round64 (round64 x) = round64 x"
proof -
  consider "0 < x" | "x = 0" | "x < 0" by linarith
  then show ?thesis
  proof cases
    case 1
    then show ?thesis by (rule round64_idem_pos)
  next
    case 2
    then show ?thesis by simp
  next
    case 3
    then have "round64 (round64 (- x)) = round64 (- x)" by (simp add: round64_idem_pos)
    then show ?thesis by (simp add: round64_minus)
  qed
qed



section \<open>Properties of the credible intervals\<close>








lemma length_cumsum_from [simp]: "length (cumsum_from acc ps) = length ps"
  by (induction ps arbitrary: acc) simp_all

lemma length_cumsum [simp]: "length (cumsum ps) = length ps"
  by (simp add: cumsum_def split: list.splits)





subsection \<open>Evaluating roundings\<close>

























subsection \<open>Claims about the credible intervals\<close>








section \<open>Properties of the posterior engine\<close>

lemma sum_list_divide: "sum_list (map (\<lambda>v. v / d) xs) = sum_list xs / (d::real)"
  by (induction xs) (simp_all add: add_divide_distrib)

lemma normalize_distribution:
  assumes "\<forall>v\<in>set xs. 0 \<le> v" and "0 < sum_list xs"
  shows "distribution (normalize xs)"
  using assms by (auto simp add: distribution_def normalize_def sum_list_divide)

lemma map2_mult_nonneg:
  assumes "\<forall>v\<in>set xs. (0::real) \<le> v" and "\<forall>v\<in>set ys. (0::real) \<le> v"
  shows "\<forall>v\<in>set (map2 (*) xs ys). 0 \<le> v"
proof
  fix v assume "v \<in> set (map2 (*) xs ys)"
  then obtain a b where ab: "(a, b) \<in> set (zip xs ys)" and v: "v = a * b" by auto
  from ab have "a \<in> set xs" and "b \<in> set ys"
    by (auto dest: set_zip_leftD set_zip_rightD)
  then show "0 \<le> v" unfolding v using assms by simp
qed

lemma matvec_nonneg:
  assumes "\<forall>row\<in>set M. \<forall>v\<in>set row. 0 \<le> v" and "\<forall>v\<in>set p. 0 \<le> v"
  shows "\<forall>v\<in>set (matvec M p). 0 \<le> v"
proof
  fix v assume "v \<in> set (matvec M p)"
  then obtain row where row: "row \<in> set M" and v: "v = sum_list (map2 (*) row p)"
    by (auto simp add: matvec_def)
  have "\<forall>w\<in>set (map2 (*) row p). 0 \<le> w"
    by (rule map2_mult_nonneg) (use assms row in auto)
  then show "0 \<le> v" unfolding v by (intro sum_list_nonneg) blast
qed

lemma process_matrix_nonneg:
  assumes "\<forall>loc x. 0 \<le> norm_pdf sps loc (process_sigma self) x"
  shows "\<forall>row\<in>set (process_matrix sps self). \<forall>v\<in>set row. 0 \<le> v"
proof (intro ballI)
  fix row v assume "row \<in> set (process_matrix sps self)" and v: "v \<in> set row"
  then obtain x where
    row: "row = map2 (/) (map (\<lambda>loc. norm_pdf sps loc (process_sigma self) x) (r_list self))
                  (map (\<lambda>loc. sum_list (map (\<lambda>x. norm_pdf sps loc (process_sigma self) x)
                                          (r_list self))) (r_list self))"
    by (auto simp add: process_matrix_def Let_def)
  from v obtain a b where ab: "v = a / b"
    and z: "(a, b) \<in> set (zip (map (\<lambda>loc. norm_pdf sps loc (process_sigma self) x) (r_list self))
                  (map (\<lambda>loc. sum_list (map (\<lambda>x. norm_pdf sps loc (process_sigma self) x)
                                          (r_list self))) (r_list self)))"
    unfolding row by auto
  have a: "a \<in> set (map (\<lambda>loc. norm_pdf sps loc (process_sigma self) x) (r_list self))"
    using z by (rule set_zip_leftD)
  have b: "b \<in> set (map (\<lambda>loc. sum_list (map (\<lambda>x. norm_pdf sps loc (process_sigma self) x)
                                          (r_list self))) (r_list self))"
    using z by (rule set_zip_rightD)
  have "0 \<le> a" using a assms by auto
  moreover have "0 \<le> b" using b assms by (auto intro!: sum_list_nonneg)
  ultimately show "0 \<le> v" unfolding ab by simp
qed

lemma likelihoods_nonneg:
  assumes "\<forall>k mu. 0 \<le> mu \<longrightarrow> 0 \<le> poisson_pmf sps k mu" and "\<forall>k\<in>set timeseries. 0 \<le> k"
  shows "\<forall>lik\<in>set (likelihoods sps self timeseries). \<forall>v\<in>set lik. 0 \<le> v"
proof (intro ballI)
  fix lik v assume "lik \<in> set (likelihoods sps self timeseries)" and v: "v \<in> set lik"
  then obtain prev cur where pc: "(prev, cur) \<in> set (zip (butlast timeseries) (tl timeseries))"
    and lik: "lik = map (\<lambda>r. poisson_pmf sps cur (prev * exp ((r - 1) / serial_period self)))
                      (r_list self)"
    by (auto simp add: likelihoods_def)
  have "prev \<in> set timeseries" using pc by (auto dest: set_zip_leftD in_set_butlastD)
  then have "0 \<le> prev" using assms(2) by simp
  then have "0 \<le> prev * exp ((r - 1) / serial_period self)" for r by simp
  then show "0 \<le> v" using v assms(1) unfolding lik by auto
qed

lemma length_likelihoods: "length (likelihoods sps self timeseries) = length timeseries - 1"
  by (simp add: likelihoods_def)

text \<open>One step of the loop keeps the state a distribution.\<close>

lemma bayes_step_distribution:
  assumes "\<forall>v\<in>set numerator. (0::real) \<le> v" and "distribution reinit"
  shows "distribution (if sum_list numerator = 0 then reinit
                       else map (\<lambda>v. v / sum_list numerator) numerator)"
proof (cases "sum_list numerator = 0")
  case True
  then show ?thesis using assms(2) by simp
next
  case False
  have "0 \<le> sum_list numerator" using assms(1) by (simp add: sum_list_nonneg)
  then have "0 < sum_list numerator" using False by simp
  then show ?thesis
    using False assms(1) by (auto simp add: distribution_def sum_list_divide)
qed

lemma bayes_loop_distributions:
  assumes "\<forall>row\<in>set pm. \<forall>v\<in>set row. 0 \<le> v" and "distribution reinit"
    and "\<forall>lik\<in>set liks. \<forall>v\<in>set lik. 0 \<le> v" and "\<forall>v\<in>set previous. 0 \<le> v"
  shows "length (fst (bayes_loop pm reinit liks previous ll)) = length liks
       \<and> (\<forall>p\<in>set (fst (bayes_loop pm reinit liks previous ll)). distribution p)"
  using assms(3,4)
proof (induction liks arbitrary: previous ll)
  case Nil
  then show ?case by simp
next
  case (Cons lik rest)
  define numerator where "numerator = map2 (*) lik (matvec pm previous)"
  define posterior where
    "posterior = (if sum_list numerator = 0 then reinit
                  else map (\<lambda>v. v / sum_list numerator) numerator)"
  have prior: "\<forall>v\<in>set (matvec pm previous). 0 \<le> v"
    by (rule matvec_nonneg[OF assms(1) Cons.prems(2)])
  have num: "\<forall>v\<in>set numerator. 0 \<le> v"
    unfolding numerator_def by (rule map2_mult_nonneg) (use Cons.prems(1) prior in auto)
  have post: "distribution posterior"
    unfolding posterior_def by (rule bayes_step_distribution[OF num assms(2)])
  then have pn: "\<forall>v\<in>set posterior. 0 \<le> v" by (simp add: distribution_def)
  have rest: "\<forall>l\<in>set rest. \<forall>v\<in>set l. 0 \<le> v" using Cons.prems(1) by simp
  have step: "fst (bayes_loop pm reinit (lik # rest) previous ll) =
          posterior # fst (bayes_loop pm reinit rest posterior
                            (np_add ll (np_log (sum_list numerator))))"
    by (simp add: Let_def numerator_def posterior_def split: prod.splits)
  show ?case unfolding step using Cons.IH[OF rest pn] post by simp
qed

text \<open>
  The running log-likelihood: a day whose likelihood column is zero throughout has the
  denominator zero, and \<open>np.log\<close> of it is added like any other.
\<close>

lemma sum_list_map2_zero:
  "\<forall>v\<in>set zs. v = (0::real) \<Longrightarrow> sum_list (map2 (*) zs ys) = 0"
proof (induction zs arbitrary: ys)
  case Nil
  then show ?case by simp
next
  case (Cons z zs)
  then show ?case by (cases ys) simp_all
qed

lemma np_add_NegInf: "ll \<noteq> NaN \<Longrightarrow> np_add ll NegInf = NegInf"
  by (cases ll) simp_all

lemma np_add_not_NaN: "ll \<noteq> NaN \<Longrightarrow> 0 \<le> d \<Longrightarrow> np_add ll (np_log d) \<noteq> NaN"
  by (cases ll) (simp_all add: np_log_def)

lemma np_add_from_NegInf: "0 \<le> d \<Longrightarrow> np_add NegInf (np_log d) = NegInf"
  by (simp add: np_log_def)

lemma bayes_loop_stays_NegInf:
  assumes "\<forall>row\<in>set pm. \<forall>v\<in>set row. 0 \<le> v" and "distribution reinit"
    and "\<forall>lik\<in>set liks. \<forall>v\<in>set lik. 0 \<le> v" and "\<forall>v\<in>set previous. 0 \<le> v"
  shows "snd (bayes_loop pm reinit liks previous NegInf) = NegInf"
  using assms(3,4)
proof (induction liks arbitrary: previous)
  case Nil
  then show ?case by simp
next
  case (Cons lik rest)
  define numerator where "numerator = map2 (*) lik (matvec pm previous)"
  define posterior where
    "posterior = (if sum_list numerator = 0 then reinit
                  else map (\<lambda>v. v / sum_list numerator) numerator)"
  have prior: "\<forall>v\<in>set (matvec pm previous). 0 \<le> v"
    by (rule matvec_nonneg[OF assms(1) Cons.prems(2)])
  have num: "\<forall>v\<in>set numerator. 0 \<le> v"
    unfolding numerator_def by (rule map2_mult_nonneg) (use Cons.prems(1) prior in auto)
  have d: "0 \<le> sum_list numerator" using num by (simp add: sum_list_nonneg)
  have "distribution posterior"
    unfolding posterior_def by (rule bayes_step_distribution[OF num assms(2)])
  then have pn: "\<forall>v\<in>set posterior. 0 \<le> v" by (simp add: distribution_def)
  have rest: "\<forall>l\<in>set rest. \<forall>v\<in>set l. 0 \<le> v" using Cons.prems(1) by simp
  have step: "snd (bayes_loop pm reinit (lik # rest) previous NegInf) =
          snd (bayes_loop pm reinit rest posterior (np_add NegInf (np_log (sum_list numerator))))"
    by (simp add: Let_def numerator_def posterior_def split: prod.splits)
  show ?case unfolding step np_add_from_NegInf[OF d] by (rule Cons.IH[OF rest pn])
qed

lemma bayes_loop_zero_day:
  assumes "\<forall>row\<in>set pm. \<forall>v\<in>set row. 0 \<le> v" and "distribution reinit"
    and "\<forall>lik\<in>set liks. \<forall>v\<in>set lik. 0 \<le> v" and "\<forall>v\<in>set previous. 0 \<le> v"
    and "\<exists>lik\<in>set liks. \<forall>v\<in>set lik. v = 0" and "ll \<noteq> NaN"
  shows "snd (bayes_loop pm reinit liks previous ll) = NegInf"
  using assms(3,4,5,6)
proof (induction liks arbitrary: previous ll)
  case Nil
  then show ?case by simp
next
  case (Cons lik rest)
  define numerator where "numerator = map2 (*) lik (matvec pm previous)"
  define posterior where
    "posterior = (if sum_list numerator = 0 then reinit
                  else map (\<lambda>v. v / sum_list numerator) numerator)"
  have prior: "\<forall>v\<in>set (matvec pm previous). 0 \<le> v"
    by (rule matvec_nonneg[OF assms(1) Cons.prems(2)])
  have num: "\<forall>v\<in>set numerator. 0 \<le> v"
    unfolding numerator_def by (rule map2_mult_nonneg) (use Cons.prems(1) prior in auto)
  have d: "0 \<le> sum_list numerator" using num by (simp add: sum_list_nonneg)
  have "distribution posterior"
    unfolding posterior_def by (rule bayes_step_distribution[OF num assms(2)])
  then have pn: "\<forall>v\<in>set posterior. 0 \<le> v" by (simp add: distribution_def)
  have rest: "\<forall>l\<in>set rest. \<forall>v\<in>set l. 0 \<le> v" using Cons.prems(1) by simp
  have step: "snd (bayes_loop pm reinit (lik # rest) previous ll) =
          snd (bayes_loop pm reinit rest posterior (np_add ll (np_log (sum_list numerator))))"
    by (simp add: Let_def numerator_def posterior_def split: prod.splits)
  show ?case
  proof (cases "\<forall>v\<in>set lik. v = 0")
    case True
    then have "sum_list numerator = 0" unfolding numerator_def by (rule sum_list_map2_zero)
    then have "np_add ll (np_log (sum_list numerator)) = NegInf"
      using Cons.prems(4) by (simp add: np_log_def np_add_NegInf)
    then show ?thesis unfolding step
      using bayes_loop_stays_NegInf[OF assms(1,2) rest pn] by simp
  next
    case False
    then have ex: "\<exists>l\<in>set rest. \<forall>v\<in>set l. v = 0" using Cons.prems(3) by auto
    have "np_add ll (np_log (sum_list numerator)) \<noteq> NaN"
      by (rule np_add_not_NaN[OF Cons.prems(4) d])
    then show ?thesis unfolding step by (rule Cons.IH[OF rest pn ex])
  qed
qed

lemma bayes_loop_fst_step:
  "fst (bayes_loop pm reinit (lik # rest) previous ll) =
     (let numerator = map2 (*) lik (matvec pm previous);
          posterior = (if sum_list numerator = 0 then reinit
                       else map (\<lambda>v. v / sum_list numerator) numerator)
      in posterior # fst (bayes_loop pm reinit rest posterior
                           (np_add ll (np_log (sum_list numerator)))))"
  by (simp add: Let_def split: prod.splits)

lemma bayes_loop_length: "length (fst (bayes_loop pm reinit liks previous ll)) = length liks"
proof (induction liks arbitrary: previous ll)
  case Nil
  then show ?case by simp
next
  case (Cons lik rest)
  show ?case unfolding bayes_loop_fst_step Let_def by (simp add: Cons.IH)
qed

lemma get_posteriors_unfold:
  assumes "timeseries \<noteq> []"
  shows "get_posteriors sps self (dates, times', timeseries) =
     Some \<lparr> run_dates = py_slice_from (- int (length timeseries)) dates,
            run_times = py_slice_from (- int (length timeseries)) times',
            run_posteriors =
              normalize (map (gamma_pdf sps (5 / 2)) (r_list self))
              # fst (bayes_loop (process_matrix sps self)
                     (normalize (map (gamma_pdf sps 2) (r_list self)))
                     (likelihoods sps self timeseries)
                     (normalize (map (gamma_pdf sps (5 / 2)) (r_list self))) (Finite 0)),
            run_start_idx = - int (length timeseries),
            run_log_likelihood =
              snd (bayes_loop (process_matrix sps self)
                     (normalize (map (gamma_pdf sps 2) (r_list self)))
                     (likelihoods sps self timeseries)
                     (normalize (map (gamma_pdf sps (5 / 2)) (r_list self))) (Finite 0)) \<rparr>"
proof -
  define loop where
    "loop = bayes_loop (process_matrix sps self)
              (normalize (map (gamma_pdf sps 2) (r_list self)))
              (likelihoods sps self timeseries)
              (normalize (map (gamma_pdf sps (5 / 2)) (r_list self))) (Finite 0)"
  have len: "length (fst loop) = length timeseries - 1"
    by (simp add: loop_def bayes_loop_length length_likelihoods)
  have "int (length timeseries - 1) + 1 = int (length timeseries)"
    using assms by (cases timeseries) simp_all
  then have idx: "- 1 - int (length (fst loop)) = - int (length timeseries)"
    using len by simp
  obtain later total where lt: "loop = (later, total)" by (cases loop)
  have idx': "- 1 - int (length later) = - int (length timeseries)" using idx lt by simp
  show ?thesis
    using assms
    by (simp add: get_posteriors_def Let_def loop_def[symmetric] lt idx')
qed

text \<open>
  C1. For a non-negative smoothed series of at least two points, and distributions that
  behave as densities on the grid (non-negative values, and a positive sum wherever the
  engine divides by one), \<open>get_posteriors\<close> returns one posterior per day of the
  series, the seeded first day included, and each of them has non-negative entries and
  sums to one, hence within \<open>1e-9\<close> of one.
\<close>

theorem posteriors_are_distributions:
  assumes "2 \<le> length timeseries" and "\<forall>k\<in>set timeseries. 0 \<le> k"
    and "\<forall>k mu. 0 \<le> mu \<longrightarrow> 0 \<le> poisson_pmf sps k mu"
    and "\<forall>loc x. 0 \<le> norm_pdf sps loc (process_sigma self) x"
    and "\<forall>loc\<in>set (r_list self).
           0 < sum_list (map (norm_pdf sps loc (process_sigma self)) (r_list self))"
    and "\<forall>a x. 0 \<le> gamma_pdf sps a x"
    and "0 < sum_list (map (gamma_pdf sps (5 / 2)) (r_list self))"
    and "0 < sum_list (map (gamma_pdf sps 2) (r_list self))"
  shows "\<exists>run. get_posteriors sps self (dates, times', timeseries) = Some run
           \<and> length (run_posteriors run) = length timeseries
           \<and> (\<forall>p\<in>set (run_posteriors run).
                 (\<forall>v\<in>set p. 0 \<le> v) \<and> sum_list p = 1 \<and> \<bar>sum_list p - 1\<bar> \<le> 1 / 10 ^ 9)"
proof -
  define prior0 where "prior0 = normalize (map (gamma_pdf sps (5 / 2)) (r_list self))"
  define reinit where "reinit = normalize (map (gamma_pdf sps 2) (r_list self))"
  define liks where "liks = likelihoods sps self timeseries"
  define later where
    "later = fst (bayes_loop (process_matrix sps self) reinit liks prior0 (Finite 0))"
  have ne: "timeseries \<noteq> []" using assms(1) by auto
  have p0: "distribution prior0"
    unfolding prior0_def by (rule normalize_distribution) (use assms(6,7) in auto)
  have re: "distribution reinit"
    unfolding reinit_def by (rule normalize_distribution) (use assms(6,8) in auto)
  have pm: "\<forall>row\<in>set (process_matrix sps self). \<forall>v\<in>set row. 0 \<le> v"
    by (rule process_matrix_nonneg[OF assms(4)])
  have lk: "\<forall>lik\<in>set liks. \<forall>v\<in>set lik. 0 \<le> v"
    unfolding liks_def by (rule likelihoods_nonneg[OF assms(3,2)])
  have p0n: "\<forall>v\<in>set prior0. 0 \<le> v" using p0 by (simp add: distribution_def)
  have loop: "length later = length liks \<and> (\<forall>p\<in>set later. distribution p)"
    unfolding later_def by (rule bayes_loop_distributions[OF pm re lk p0n])
  have len: "length (prior0 # later) = length timeseries"
    using loop assms(1) by (simp add: liks_def length_likelihoods)
  have all: "\<forall>p\<in>set (prior0 # later). distribution p" using p0 loop by simp
  have "\<forall>p\<in>set (prior0 # later).
          (\<forall>v\<in>set p. 0 \<le> v) \<and> sum_list p = 1 \<and> \<bar>sum_list p - 1\<bar> \<le> 1 / 10 ^ 9"
  proof
    fix p assume "p \<in> set (prior0 # later)"
    then have "distribution p" using all by blast
    then show "(\<forall>v\<in>set p. 0 \<le> v) \<and> sum_list p = 1 \<and> \<bar>sum_list p - 1\<bar> \<le> 1 / 10 ^ 9"
      by (simp add: distribution_def)
  qed
  then show ?thesis
    using len
    unfolding get_posteriors_unfold[OF ne] prior0_def reinit_def liks_def later_def
    by simp
qed

subsection \<open>The textbook densities on the grid of the concrete engine\<close>

lemma ideal_poisson_nonneg: "0 \<le> mu \<Longrightarrow> 0 \<le> poisson_pmf ideal_stats k mu"
  by (simp add: ideal_stats_def)

lemma ideal_norm_nonneg: "0 \<le> norm_pdf ideal_stats loc (process_sigma engine0) x"
  by (simp add: ideal_stats_def engine0_def)

lemma ideal_norm_centre: "0 < norm_pdf ideal_stats loc (process_sigma engine0) loc"
  by (simp add: ideal_stats_def engine0_def)

lemma ideal_norm_columns:
  "\<forall>loc\<in>set (r_list engine0).
     0 < sum_list (map (norm_pdf ideal_stats loc (process_sigma engine0)) (r_list engine0))"
proof
  fix loc assume "loc \<in> set (r_list engine0)"
  then have "norm_pdf ideal_stats loc (process_sigma engine0) loc
               \<in> set (map (norm_pdf ideal_stats loc (process_sigma engine0)) (r_list engine0))"
    by simp
  then have "norm_pdf ideal_stats loc (process_sigma engine0) loc
               \<le> sum_list (map (norm_pdf ideal_stats loc (process_sigma engine0)) (r_list engine0))"
    by (rule member_le_sum_list) (auto simp add: ideal_norm_nonneg)
  then show "0 < sum_list (map (norm_pdf ideal_stats loc (process_sigma engine0)) (r_list engine0))"
    using ideal_norm_centre[of loc] by simp
qed

lemma ideal_gamma_nonneg: "0 \<le> gamma_pdf ideal_stats a x"
  by (simp add: ideal_stats_def)

lemma ideal_gamma_sum:
  "0 < sum_list (map (gamma_pdf ideal_stats (5 / 2)) (r_list engine0))"
  "0 < sum_list (map (gamma_pdf ideal_stats 2) (r_list engine0))"
  by (simp_all add: ideal_stats_def engine0_def add_pos_pos)

theorem posteriors_are_distributions_witness:
  "2 \<le> length [5, 0, 5 :: real]
   \<and> (\<exists>run. get_posteriors ideal_stats engine0 ([0, 1, 2], [0, 1, 2], [5, 0, 5]) = Some run
         \<and> length (run_posteriors run) = 3
         \<and> sum_list (run_posteriors run ! 0) = 1
         \<and> sum_list (run_posteriors run ! 1) = 1
         \<and> sum_list (run_posteriors run ! 2) = 1)"
proof -
  have a: "2 \<le> length [5, 0, 5 :: real]" by simp
  have b: "\<forall>k\<in>set [5, 0, 5 :: real]. 0 \<le> k" by simp
  have c: "\<forall>k mu. 0 \<le> mu \<longrightarrow> 0 \<le> poisson_pmf ideal_stats k mu"
    using ideal_poisson_nonneg by blast
  have d: "\<forall>loc x. 0 \<le> norm_pdf ideal_stats loc (process_sigma engine0) x"
    using ideal_norm_nonneg by blast
  have e: "\<forall>a x. 0 \<le> gamma_pdf ideal_stats a x"
    using ideal_gamma_nonneg by blast
  from posteriors_are_distributions[OF a b c d ideal_norm_columns e ideal_gamma_sum,
      of "[0, 1, 2]" "[0, 1, 2]"]
  obtain run where
    r: "get_posteriors ideal_stats engine0 ([0, 1, 2], [0, 1, 2], [5, 0, 5]) = Some run"
       "length (run_posteriors run) = 3"
       "\<forall>p\<in>set (run_posteriors run). sum_list p = 1"
    by auto
  have "run_posteriors run ! 0 \<in> set (run_posteriors run)"
    "run_posteriors run ! 1 \<in> set (run_posteriors run)"
    "run_posteriors run ! 2 \<in> set (run_posteriors run)"
    using r(2) by simp_all
  then show ?thesis using r by auto
qed

text \<open>
  C2. On the smoothed series \<open>5, 0, 5\<close> the third day's likelihood is zero at every grid
  value, its normalizing constant is zero, and the log-likelihood the run stores is
  \<open>-inf\<close>: \<open>np.log\<close> of the zero denominator was added to the total. The posterior of that
  day, in contrast, is the reinitialization prior.
\<close>

theorem log_likelihood_adds_log_of_zero:
  "map_option run_log_likelihood
     (get_posteriors ideal_stats engine0 ([0, 1, 2], [0, 1, 2], [5, 0, 5])) = Some NegInf
   \<and> map_option (\<lambda>run. run_posteriors run ! 2)
       (get_posteriors ideal_stats engine0 ([0, 1, 2], [0, 1, 2], [5, 0, 5]))
     = Some (normalize (map (gamma_pdf ideal_stats 2) (r_list engine0)))"
proof -
  define prior0 where "prior0 = normalize (map (gamma_pdf ideal_stats (5 / 2)) (r_list engine0))"
  define reinit where "reinit = normalize (map (gamma_pdf ideal_stats 2) (r_list engine0))"
  define pm where "pm = process_matrix ideal_stats engine0"
  define day1 where
    "day1 = map (\<lambda>r. poisson_pmf ideal_stats 0 (5 * exp ((r - 1) / serial_period engine0)))
              (r_list engine0)"
  have liks: "likelihoods ideal_stats engine0 [5, 0, 5] = [day1, [0, 0, 0]]"
    by (simp add: likelihoods_def day1_def ideal_stats_def engine0_def)
  have p0: "distribution prior0"
    unfolding prior0_def
    by (rule normalize_distribution) (use ideal_gamma_nonneg ideal_gamma_sum in auto)
  have re: "distribution reinit"
    unfolding reinit_def
    by (rule normalize_distribution) (use ideal_gamma_nonneg ideal_gamma_sum in auto)
  have pmn: "\<forall>row\<in>set pm. \<forall>v\<in>set row. 0 \<le> v"
    unfolding pm_def by (rule process_matrix_nonneg) (use ideal_norm_nonneg in blast)
  have lk: "\<forall>lik\<in>set [day1, [0, 0, 0]]. \<forall>v\<in>set lik. 0 \<le> v"
    using likelihoods_nonneg[of ideal_stats "[5, 0, 5]" engine0] ideal_poisson_nonneg
    unfolding liks by simp
  have p0n: "\<forall>v\<in>set prior0. 0 \<le> v" using p0 by (simp add: distribution_def)
  have total: "snd (bayes_loop pm reinit [day1, [0, 0, 0]] prior0 (Finite 0)) = NegInf"
    by (rule bayes_loop_zero_day[OF pmn re lk p0n]) simp_all
  have zero: "sum_list (map2 (*) [0, 0, 0] ys) = (0::real)" for ys
    by (rule sum_list_map2_zero) simp
  have third: "fst (bayes_loop pm reinit [day1, [0, 0, 0]] prior0 (Finite 0)) ! 1 = reinit"
    unfolding bayes_loop_fst_step Let_def zero by simp
  show ?thesis
    unfolding get_posteriors_unfold[of "[5, 0, 5]", simplified] liks
      prior0_def[symmetric] reinit_def[symmetric] pm_def[symmetric]
    using total third by simp
qed

end
